theory Spec2Isabelle
  imports Complex_Main "HOL-Library.AList" "HOL-Library.Log_Nat"
begin

section \<open>Python values, exceptions and number formatting\<close>

text \<open>
  The program is \<^verbatim>\<open>HardwareDiagnosticTool/hardware_info.py\<close>. An exception is a value
  \<open>Exn class message\<close>; a function that can raise returns \<open>exn + 'a\<close>, with \<open>Inl\<close> the
  exception. The classes kept apart are the ones the source's handlers tell apart
  (\<open>ImportError\<close>, which includes its subclass \<open>ModuleNotFoundError\<close>) and the ones the
  modelled code raises by itself; every other subclass of \<open>Exception\<close> is \<open>OtherException\<close>.
\<close>

datatype exn_class = ImportError | OverflowError | AttributeError | OtherException

datatype exn = Exn exn_class string

fun exn_class_of :: "exn \<Rightarrow> exn_class" where
  "exn_class_of (Exn c m) = c"

text \<open>\<open>str(e)\<close> of an exception: its message.\<close>

fun exn_str :: "exn \<Rightarrow> string" where
  "exn_str (Exn c m) = m"

text \<open>
  The values the inspectors put into their dictionaries: strings, integers, \<open>None\<close> and
  nested dictionaries. A dictionary is an association list in insertion order with
  distinct keys; \<open>d[k] = v\<close> is \<open>AList.update k v d\<close>, which replaces the value of an
  existing key in place and appends a new key at the end, as Python's \<open>dict\<close> does.
\<close>

datatype pyval = VStr string | VInt int | VNone | VDict "(string \<times> pyval) list"

type_synonym pydict = "(string \<times> pyval) list"

definition digit_char :: "nat \<Rightarrow> char" where
  "digit_char d = ''0123456789'' ! d"

text \<open>\<open>str(n)\<close> for a non-negative integer, as the f-strings \<open>f"GPU {i}"\<close> produce it.\<close>

fun show_nat :: "nat \<Rightarrow> string" where
  "show_nat n =
     (if n < 10 then [digit_char n] else show_nat (n div 10) @ [digit_char (n mod 10)])"

declare show_nat.simps [simp del]

subsection \<open>Double-precision floats\<close>

text \<open>
  A finite Python float is modelled by the rational number it denotes. Every float
  operation of the source returns the exact result rounded to the nearest double, ties
  to the even significand (IEEE 754 binary64: 53 significant bits, least exponent
  \<open>-1022\<close>, subnormals below). \<open>ilog2 x\<close> is the floor of the binary logarithm of a
  positive rational, \<open>double_exp x\<close> the exponent of the binade of \<open>x\<close> and
  \<open>double_ulp x\<close> the spacing of the doubles in that binade. Infinities and NaN are not
  modelled: the only operation of the source that can leave the finite doubles on the
  inputs considered is the integer true division, which raises instead.
\<close>

definition round_half_even :: "rat \<Rightarrow> int" where
  "round_half_even y =
     (let f = \<lfloor>y\<rfloor>; r = y - of_int f
      in if r < 1 / 2 then f else if 1 / 2 < r then f + 1 else if even f then f else f + 1)"

definition ilog2 :: "rat \<Rightarrow> int" where
  "ilog2 x = (if 1 \<le> x then bitlen \<lfloor>x\<rfloor> - 1 else - bitlen (\<lceil>1 / x\<rceil> - 1))"

definition double_exp :: "rat \<Rightarrow> int" where
  "double_exp x = max (ilog2 \<bar>x\<bar>) (- 1022)"

definition double_ulp :: "rat \<Rightarrow> rat" where
  "double_ulp x = 2 powi (double_exp x - 52)"

definition round_double :: "rat \<Rightarrow> rat" where
  "round_double x =
     (if x = 0 then 0 else of_int (round_half_even (x / double_ulp x)) * double_ulp x)"

text \<open>A rounded result of magnitude \<open>2^1024\<close> or more is outside the doubles.\<close>

definition double_overflow :: "rat \<Rightarrow> bool" where
  "double_overflow y = (2 ^ 1024 \<le> \<bar>y\<bar>)"

text \<open>The rationals that are doubles: \<open>m * 2^e\<close> with \<open>\<bar>m\<bar> < 2^53\<close> and \<open>e \<ge> -1074\<close>.\<close>

definition is_double :: "rat \<Rightarrow> bool" where
  "is_double x = (\<exists>m e. x = of_int m * 2 powi e \<and> \<bar>m\<bar> < 2 ^ 53 \<and> - 1074 \<le> e)"

text \<open>
  The variable \<open>bytes\<close> of \<open>get_size\<close> holds an \<open>int\<close> on entry and a \<open>float\<close> after the
  first \<open>bytes /= 1024\<close>.
\<close>

datatype pynum = PInt int | PFloat rat

fun num_val :: "pynum \<Rightarrow> rat" where
  "num_val (PInt i) = of_int i"
| "num_val (PFloat x) = x"

text \<open>
  \<open>bytes /= 1024\<close>. On an \<open>int\<close> it is Python's true division of two integers: the
  correctly rounded quotient, or \<open>OverflowError\<close> when that is too large for a double.
  On a \<open>float\<close> it is the IEEE division by \<open>1024.0\<close>, which cannot overflow.
\<close>

fun div_1024 :: "pynum \<Rightarrow> exn + pynum" where
  "div_1024 (PInt a) =
     (let y = round_double (of_int a / 1024)
      in if double_overflow y
         then Inl (Exn OverflowError ''integer division result too large for a float'')
         else Inr (PFloat y))"
| "div_1024 (PFloat x) = Inr (PFloat (round_double (x / 1024)))"

text \<open>
  The format specification \<open>.2f\<close>: the exact value of the float rounded to hundredths,
  ties to even, printed with all its integer digits and two decimals (\<open>hundredths h\<close>
  prints \<open>h / 100\<close> so). An \<open>int\<close> is
  converted to a float first, which raises \<open>OverflowError\<close> when it is too large.
\<close>

definition hundredths :: "nat \<Rightarrow> string" where
  "hundredths h =
     show_nat (h div 100) @ ''.'' @ [digit_char (h mod 100 div 10), digit_char (h mod 10)]"

definition fmt_2f :: "rat \<Rightarrow> string" where
  "fmt_2f x =
     (if x < 0 then ''-'' else '''') @ hundredths (nat (round_half_even (\<bar>x\<bar> * 100)))"

fun fmt_2f_num :: "pynum \<Rightarrow> exn + string" where
  "fmt_2f_num (PInt i) =
     (let y = round_double (of_int i)
      in if double_overflow y
         then Inl (Exn OverflowError ''int too large to convert to float'')
         else Inr (fmt_2f y))"
| "fmt_2f_num (PFloat x) = Inr (fmt_2f x)"

section \<open>The unit formatter\<close>

text \<open>
  \<^verbatim>\<open>
  def get_size(bytes):
      for unit in ['', 'K', 'M', 'G', 'T', 'P']:
          if bytes < 1024:
              return f"{bytes:.2f}{unit}B"
          bytes /= 1024
  \<close>
  The loop is a recursion over the remaining units. Falling off the end of the loop
  returns \<open>None\<close>, the value \<open>Inr None\<close>.
\<close>

fun get_size_loop :: "string list \<Rightarrow> pynum \<Rightarrow> exn + string option" where
  "get_size_loop [] bytes = Inr None"
| "get_size_loop (unit # units) bytes =
     (if num_val bytes < 1024
      then (case fmt_2f_num bytes of
              Inl e \<Rightarrow> Inl e
            | Inr s \<Rightarrow> Inr (Some (s @ unit @ ''B'')))
      else (case div_1024 bytes of
              Inl e \<Rightarrow> Inl e
            | Inr bytes' \<Rightarrow> get_size_loop units bytes'))"

definition size_units :: "string list" where
  "size_units = ['''', ''K'', ''M'', ''G'', ''T'', ''P'']"

definition get_size :: "int \<Rightarrow> exn + string option" where
  "get_size bytes = get_size_loop size_units (PInt bytes)"

subsection \<open>Reading a formatted size back\<close>

text \<open>
  The specification's test of the formatter strips the unit suffix from the string,
  reads the numeric part as a number and takes the index of the suffix in the list of
  units. \<open>parse_size\<close> does this; it is not part of the program.
\<close>

definition digit_val :: "char \<Rightarrow> nat option" where
  "digit_val c = (if c \<in> set ''0123456789'' then Some (of_char c - 48) else None)"

fun parse_digits :: "nat \<Rightarrow> string \<Rightarrow> nat option" where
  "parse_digits acc [] = Some acc"
| "parse_digits acc (c # cs) =
     (case digit_val c of None \<Rightarrow> None | Some d \<Rightarrow> parse_digits (10 * acc + d) cs)"

definition parse_nat :: "string \<Rightarrow> nat option" where
  "parse_nat s = (if s = [] then None else parse_digits 0 s)"

definition parse_decimal :: "string \<Rightarrow> rat option" where
  "parse_decimal s =
     (case dropWhile (\<lambda>c. c \<noteq> CHR ''.'') s of
        [] \<Rightarrow> None
      | dot # fdigits \<Rightarrow>
          (case (parse_nat (takeWhile (\<lambda>c. c \<noteq> CHR ''.'') s), parse_nat fdigits) of
             (Some i, Some f) \<Rightarrow> Some (of_nat i + of_nat f / 10 ^ length fdigits)
           | _ \<Rightarrow> None))"

fun index_of :: "'a \<Rightarrow> 'a list \<Rightarrow> nat option" where
  "index_of x [] = None"
| "index_of x (y # ys) = (if x = y then Some 0 else map_option Suc (index_of x ys))"

definition parse_size :: "string \<Rightarrow> (rat \<times> nat) option" where
  "parse_size s =
     (case rev s of
        [] \<Rightarrow> None
      | c # r \<Rightarrow>
          if c \<noteq> CHR ''B'' then None
          else (case r of
                  [] \<Rightarrow> None
                | u # r' \<Rightarrow>
                    (case digit_val u of
                       Some d \<Rightarrow> map_option (\<lambda>v. (v, 0)) (parse_decimal (rev r))
                     | None \<Rightarrow>
                         (case index_of [u] size_units of
                            None \<Rightarrow> None
                          | Some k \<Rightarrow> map_option (\<lambda>v. (v, k)) (parse_decimal (rev r'))))))"


text \<open>
  A value of a dictionary made from a result of \<open>get_size\<close>, and \<open>and_then\<close>, which
  sequences two computations that can raise: the first exception ends the evaluation.
\<close>

fun opt_str :: "string option \<Rightarrow> pyval" where
  "opt_str None = VNone"
| "opt_str (Some s) = VStr s"

fun opt_int :: "int option \<Rightarrow> pyval" where
  "opt_int None = VNone"
| "opt_int (Some i) = VInt i"

definition and_then :: "exn + 'a \<Rightarrow> ('a \<Rightarrow> exn + 'b) \<Rightarrow> exn + 'b" where
  "and_then m f = (case m of Inl e \<Rightarrow> Inl e | Inr a \<Rightarrow> f a)"

definition size_val :: "int \<Rightarrow> exn + pyval" where
  "size_val bytes = and_then (get_size bytes) (\<lambda>r. Inr (opt_str r))"

section \<open>The providers\<close>

text \<open>
  The libraries \<open>platform\<close>, \<open>psutil\<close> and \<open>GPUtil\<close> are not part of the program: a run
  is given by what they answer. Byte counts are Python integers, percentages,
  frequencies and GPU readings are floats. \<open>cpu_percent\<close> takes the sampling interval
  (\<open>None\<close> when the caller passes none, which makes psutil return at once with the
  utilisation since the previous call); \<open>cpu_percent_percpu\<close> is the same call with
  \<open>percpu=True\<close>. \<open>disk_usage\<close> can raise. \<open>import_GPUtil\<close> is the exception raised by
  \<open>import GPUtil\<close>, if any, and \<open>getGPUs\<close> what the enumeration returns or raises.
  The parameter \<open>fstr\<close> of the inspectors is \<open>str\<close> on floats, which the f-strings
  \<open>f"{x}%"\<close> apply.
\<close>

record platform =
  system :: string
  release :: string
  version :: string
  machine :: string
  processor :: string
  node :: string

record scpufreq =
  freq_current :: rat
  freq_min :: rat
  freq_max :: rat

record svmem =
  vm_total :: int
  vm_available :: int
  vm_used :: int
  vm_percent :: rat

record sswap =
  swap_total :: int
  swap_used :: int
  swap_free :: int
  swap_percent :: rat

record sdiskpart =
  device :: string
  mountpoint :: string
  fstype :: string

record sdiskusage =
  du_total :: int
  du_used :: int
  du_free :: int
  du_percent :: rat

record psutil =
  cpu_freq :: "scpufreq option"
  cpu_count :: "bool \<Rightarrow> int option"
  cpu_percent :: "rat option \<Rightarrow> rat"
  cpu_percent_percpu :: "rat option \<Rightarrow> rat list"
  virtual_memory :: svmem
  swap_memory :: sswap
  disk_partitions :: "sdiskpart list"
  disk_usage :: "string \<Rightarrow> exn + sdiskusage"

record gpu =
  gpu_name :: string
  gpu_id :: int
  load :: rat
  memoryFree :: rat
  memoryUsed :: rat
  memoryTotal :: rat
  temperature :: rat
  uuid :: string

record gputil =
  import_GPUtil :: "exn option"
  getGPUs :: "exn + gpu list"

section \<open>The inspectors\<close>

definition get_system_info :: "platform \<Rightarrow> pydict" where
  "get_system_info pl =
     [(''OS'', VStr (system pl @ '' '' @ release pl)),
      (''OS Version'', VStr (version pl)),
      (''Machine'', VStr (machine pl)),
      (''Processor'', VStr (processor pl)),
      (''Hostname'', VStr (node pl))]"

text \<open>
  \<^verbatim>\<open>
  for i, percentage in enumerate(psutil.cpu_percent(percpu=True, interval=1)):
      cpu_info[f"Core {i} Usage"] = f"{percentage}%"
  \<close>
  \<open>core_key i\<close> is the key \<open>f"Core {i} Usage"\<close>.
\<close>

definition core_key :: "nat \<Rightarrow> string" where
  "core_key i = ''Core '' @ show_nat i @ '' Usage''"

fun core_usage_loop :: "(rat \<Rightarrow> string) \<Rightarrow> (nat \<times> rat) list \<Rightarrow> pydict \<Rightarrow> pydict" where
  "core_usage_loop fstr [] cpu_info = cpu_info"
| "core_usage_loop fstr ((i, percentage) # rest) cpu_info =
     core_usage_loop fstr rest
       (AList.update (core_key i) (VStr (fstr percentage @ ''%'')) cpu_info)"

text \<open>
  \<open>cpu_info_init\<close> is the dictionary literal that \<open>get_cpu_info\<close> starts from. The
  aggregate \<open>psutil.cpu_percent()\<close> passes no interval; the per-core call passes
  \<open>interval=1\<close>.
\<close>

definition cpu_info_init :: "(rat \<Rightarrow> string) \<Rightarrow> psutil \<Rightarrow> pydict" where
  "cpu_info_init fstr ps =
     [(''Physical Cores'', opt_int (cpu_count ps False)),
      (''Total Cores'', opt_int (cpu_count ps True)),
      (''Max Frequency'',
         VStr (case cpu_freq ps of Some f \<Rightarrow> fmt_2f (freq_max f) @ ''Mhz'' | None \<Rightarrow> ''N/A'')),
      (''Current Frequency'',
         VStr (case cpu_freq ps of
                 Some f \<Rightarrow> fmt_2f (freq_current f) @ ''Mhz'' | None \<Rightarrow> ''N/A'')),
      (''CPU Usage'', VStr (fstr (cpu_percent ps None) @ ''%''))]"

definition get_cpu_info :: "(rat \<Rightarrow> string) \<Rightarrow> psutil \<Rightarrow> pydict" where
  "get_cpu_info fstr ps =
     core_usage_loop fstr (enumerate 0 (cpu_percent_percpu ps (Some 1))) (cpu_info_init fstr ps)"

text \<open>
  The values of the dictionary literal are evaluated in order; only \<open>get_size\<close> can
  raise, and its exception leaves \<open>get_memory_info\<close>.
\<close>

definition get_memory_info :: "(rat \<Rightarrow> string) \<Rightarrow> psutil \<Rightarrow> exn + pydict" where
  "get_memory_info fstr ps =
     (let svmem = virtual_memory ps; swap = swap_memory ps
      in and_then (size_val (vm_total svmem)) (\<lambda>total.
         and_then (size_val (vm_available svmem)) (\<lambda>available.
         and_then (size_val (vm_used svmem)) (\<lambda>used.
         and_then (size_val (swap_total swap)) (\<lambda>stotal.
         and_then (size_val (swap_free swap)) (\<lambda>sfree.
         and_then (size_val (swap_used swap)) (\<lambda>sused.
           Inr [(''Total Memory'', total),
                (''Available Memory'', available),
                (''Used Memory'', used),
                (''Memory Usage'', VStr (fstr (vm_percent svmem) @ ''%'')),
                (''Total Swap'', stotal),
                (''Free Swap'', sfree),
                (''Used Swap'', sused),
                (''Swap Usage'', VStr (fstr (swap_percent swap) @ ''%''))])))))))"

text \<open>
  The body of the \<open>try\<close> of \<open>get_disk_info\<close> for one partition: the usage is read, then
  the entry is built. An exception of either step reaches \<open>except Exception: continue\<close>.
  \<open>device_key part\<close> is the key \<open>f"Device {partition.device}"\<close>.
\<close>

definition device_key :: "sdiskpart \<Rightarrow> string" where
  "device_key part = ''Device '' @ device part"

definition disk_entry :: "(rat \<Rightarrow> string) \<Rightarrow> psutil \<Rightarrow> sdiskpart \<Rightarrow> exn + pydict" where
  "disk_entry fstr ps part =
     and_then (disk_usage ps (mountpoint part)) (\<lambda>usage.
     and_then (size_val (du_total usage)) (\<lambda>total.
     and_then (size_val (du_used usage)) (\<lambda>used.
     and_then (size_val (du_free usage)) (\<lambda>free.
       Inr [(''Mountpoint'', VStr (mountpoint part)),
            (''File System'', VStr (fstype part)),
            (''Total Size'', total),
            (''Used'', used),
            (''Free'', free),
            (''Usage'', VStr (fstr (du_percent usage) @ ''%''))]))))"

fun disk_loop :: "(rat \<Rightarrow> string) \<Rightarrow> psutil \<Rightarrow> sdiskpart list \<Rightarrow> pydict \<Rightarrow> pydict" where
  "disk_loop fstr ps [] disk_info = disk_info"
| "disk_loop fstr ps (part # rest) disk_info =
     (case disk_entry fstr ps part of
        Inl e \<Rightarrow> disk_loop fstr ps rest disk_info
      | Inr entry \<Rightarrow>
          disk_loop fstr ps rest
            (AList.update (device_key part) (VDict entry) disk_info))"

definition get_disk_info :: "(rat \<Rightarrow> string) \<Rightarrow> psutil \<Rightarrow> pydict" where
  "get_disk_info fstr ps = disk_loop fstr ps (disk_partitions ps) []"

text \<open>
  A partition is readable when reading the usage at its mountpoint does not raise. The
  byte counts of an operating system are unsigned 64-bit quantities.
\<close>

definition readable :: "psutil \<Rightarrow> sdiskpart \<Rightarrow> bool" where
  "readable ps part = (\<not> isl (disk_usage ps (mountpoint part)))"

definition byte_count :: "int \<Rightarrow> bool" where
  "byte_count b = (0 \<le> b \<and> b < 2 ^ 64)"

text \<open>
  A partition is retained when the body of the \<open>try\<close> completes for it: its usage is
  read and \<open>get_size\<close> raises on none of the three byte counts. \<open>disk_item\<close> is the key
  and the entry that the loop then stores.
\<close>

definition retained :: "psutil \<Rightarrow> sdiskpart \<Rightarrow> bool" where
  "retained ps part =
     (case disk_usage ps (mountpoint part) of
        Inl e \<Rightarrow> False
      | Inr usage \<Rightarrow>
          \<not> isl (get_size (du_total usage)) \<and> \<not> isl (get_size (du_used usage))
          \<and> \<not> isl (get_size (du_free usage)))"

definition disk_item :: "(rat \<Rightarrow> string) \<Rightarrow> psutil \<Rightarrow> sdiskpart \<Rightarrow> string \<times> pyval" where
  "disk_item fstr ps part = (device_key part, VDict (projr (disk_entry fstr ps part)))"

text \<open>
  \<open>gpu.load*100\<close> is a float multiplication. The degree sign of the temperature's unit
  is written as its two UTF-8 bytes. \<open>gpu_key i\<close> is the key \<open>f"GPU {i}"\<close>.
\<close>

definition float_mul :: "rat \<Rightarrow> rat \<Rightarrow> rat" where
  "float_mul x y = round_double (x * y)"

definition gpu_entry :: "(rat \<Rightarrow> string) \<Rightarrow> gpu \<Rightarrow> pydict" where
  "gpu_entry fstr gpu =
     [(''Name'', VStr (gpu_name gpu)),
      (''ID'', VInt (gpu_id gpu)),
      (''Load'', VStr (fstr (float_mul (load gpu) 100) @ ''%'')),
      (''Free Memory'', VStr (fstr (memoryFree gpu) @ ''MB'')),
      (''Used Memory'', VStr (fstr (memoryUsed gpu) @ ''MB'')),
      (''Total Memory'', VStr (fstr (memoryTotal gpu) @ ''MB'')),
      (''Temperature'', VStr (fstr (temperature gpu) @ '' '' @ [CHR 0xC2, CHR 0xB0] @ ''C'')),
      (''UUID'', VStr (uuid gpu))]"

definition gpu_key :: "nat \<Rightarrow> string" where
  "gpu_key i = ''GPU '' @ show_nat i"

fun gpu_loop :: "(rat \<Rightarrow> string) \<Rightarrow> (nat \<times> gpu) list \<Rightarrow> pydict \<Rightarrow> pydict" where
  "gpu_loop fstr [] gpu_info = gpu_info"
| "gpu_loop fstr ((i, gpu) # rest) gpu_info =
     gpu_loop fstr rest (AList.update (gpu_key i) (VDict (gpu_entry fstr gpu)) gpu_info)"

text \<open>
  The two handlers of \<open>try_get_gpu_info\<close>, in the order of the source: \<open>except ImportError\<close>
  first, \<open>except Exception as e\<close> for everything else. They guard the whole \<open>try\<close> body,
  the import and the enumeration alike.
\<close>

definition gpu_except :: "exn \<Rightarrow> pydict" where
  "gpu_except e =
     (if exn_class_of e = ImportError
      then [(''Status'',
             VStr ''GPU information unavailable - GPUtil module not installed or supported'')]
      else [(''Error'', VStr (''Failed to get GPU information: '' @ exn_str e))])"

definition try_get_gpu_info :: "(rat \<Rightarrow> string) \<Rightarrow> gputil \<Rightarrow> pydict" where
  "try_get_gpu_info fstr g =
     (case import_GPUtil g of
        Some e \<Rightarrow> gpu_except e
      | None \<Rightarrow>
          (case getGPUs g of
             Inl e \<Rightarrow> gpu_except e
           | Inr gpus \<Rightarrow> gpu_loop fstr (enumerate 0 gpus) []))"

text \<open>
  The exception that leaves the body of the \<open>try\<close> of \<open>try_get_gpu_info\<close>, if any: that
  of the import, or else that of the enumeration.
\<close>

definition gpu_raised :: "gputil \<Rightarrow> exn option" where
  "gpu_raised g =
     (case import_GPUtil g of
        Some e \<Rightarrow> Some e
      | None \<Rightarrow> (case getGPUs g of Inl e \<Rightarrow> Some e | Inr gpus \<Rightarrow> None))"

section \<open>The report renderer\<close>

text \<open>
  The output of a run is the list of its \<open>print\<close> calls. \<open>Print v\<close> prints \<open>str(v)\<close>;
  \<open>PrintTable rows headers tablefmt\<close> prints \<open>tabulate(rows, headers=headers,
  tablefmt=tablefmt)\<close>, the text of which is the library's. \<open>main\<close> returns the output
  and the exception that ended the run, if any. \<open>now\<close> is
  \<open>datetime.now().strftime('%Y-%m-%d %H:%M:%S')\<close>.
\<close>

datatype out = Print pyval | PrintTable "pyval list list" "string list" string

definition nl :: string where
  "nl = [CHR 0x0A]"

definition table :: "pydict \<Rightarrow> out" where
  "table info = PrintTable (map (\<lambda>(k, v). [VStr k, v]) info) [''Property'', ''Value''] ''grid''"

fun type_name :: "pyval \<Rightarrow> string" where
  "type_name (VStr s) = ''str''"
| "type_name (VInt i) = ''int''"
| "type_name VNone = ''NoneType''"
| "type_name (VDict d) = ''dict''"

text \<open>
  \<^verbatim>\<open>
  for disk, info in disk_info.items():
      print(f"\n{disk}:")
      print(tabulate([[k, v] for k, v in info.items()], headers=['Property', 'Value'],
                     tablefmt='grid'))
  \<close>
  and the same loop over \<open>gpu_info\<close>. \<open>info.items()\<close> raises \<open>AttributeError\<close> on a value
  that is not a dictionary.
\<close>

fun print_devices :: "pydict \<Rightarrow> out list \<times> exn option" where
  "print_devices [] = ([], None)"
| "print_devices ((k, info) # rest) =
     (case info of
        VDict d \<Rightarrow>
          (case print_devices rest of
             (outs, e) \<Rightarrow> (Print (VStr (nl @ k @ '':'')) # table d # outs, e))
      | _ \<Rightarrow>
          ([Print (VStr (nl @ k @ '':''))],
           Some (Exn AttributeError
                  ([CHR 0x27] @ type_name info @ [CHR 0x27] @ '' object has no attribute ''
                     @ [CHR 0x27] @ ''items'' @ [CHR 0x27]))))"

text \<open>
  \<open>isinstance(gpu_info, dict) and len(gpu_info) == 1 and ("Status" in gpu_info or "Error"
  in gpu_info)\<close>; the first conjunct holds of every \<open>pydict\<close>.
\<close>

definition is_sentinel :: "pydict \<Rightarrow> bool" where
  "is_sentinel gpu_info =
     (length gpu_info = 1 \<and>
      (''Status'' \<in> set (map fst gpu_info) \<or> ''Error'' \<in> set (map fst gpu_info)))"

definition print_gpu :: "pydict \<Rightarrow> out list \<times> exn option" where
  "print_gpu gpu_info =
     (if is_sentinel gpu_info
      then (let key = (if ''Status'' \<in> set (map fst gpu_info) then ''Status'' else ''Error'')
            in case map_of gpu_info key of
                 Some v \<Rightarrow> ([Print v], None)
               | None \<Rightarrow> ([], Some (Exn OtherException key)))
      else print_devices gpu_info)"

definition main ::
  "(rat \<Rightarrow> string) \<Rightarrow> string \<Rightarrow> platform \<Rightarrow> psutil \<Rightarrow> gputil \<Rightarrow> out list \<times> exn option" where
  "main fstr now pl ps g =
     (let head =
        [Print (VStr (nl @ ''=== Hardware Diagnostic Tool ==='')),
         Print (VStr (''Report generated on: '' @ now @ nl))];
          system_info = get_system_info pl;
          cpu_info = get_cpu_info fstr ps
      in case get_memory_info fstr ps of
           Inl e \<Rightarrow> (head, Some e)
         | Inr memory_info \<Rightarrow>
             (let disk_info = get_disk_info fstr ps;
                  gpu_info = try_get_gpu_info fstr g;
                  flat =
                    [Print (VStr (nl @ ''--- System Information ---'')), table system_info,
                     Print (VStr (nl @ ''--- CPU Information ---'')), table cpu_info,
                     Print (VStr (nl @ ''--- Memory Information ---'')), table memory_info,
                     Print (VStr (nl @ ''--- Disk Information ---''))]
              in case print_devices disk_info of
                   (disk_out, Some e) \<Rightarrow> (head @ flat @ disk_out, Some e)
                 | (disk_out, None) \<Rightarrow>
                     (case print_gpu gpu_info of
                        (gpu_out, e) \<Rightarrow>
                          (head @ flat @ disk_out
                             @ [Print (VStr (nl @ ''--- GPU Information ---''))] @ gpu_out,
                           e))))"

subsection \<open>The report as the specification describes it\<close>

text \<open>
  The specification's renderer prints the title and the timestamp, then the sections
  System, CPU and Memory as one table each, then Disk and GPU as one sub-table per
  device, each under a heading made of the device's key. \<open>device_tables\<close> is that
  rendering of a grouping and \<open>report_as_claimed\<close> the whole report; they are compared
  with \<open>main\<close> below and are not part of the program.
\<close>

fun dict_items :: "pyval \<Rightarrow> pydict" where
  "dict_items (VDict d) = d"
| "dict_items v = []"

definition device_tables :: "pydict \<Rightarrow> out list" where
  "device_tables groups =
     concat (map (\<lambda>(k, info). [Print (VStr (nl @ k @ '':'')), table (dict_items info)]) groups)"

definition report_head :: "string \<Rightarrow> out list" where
  "report_head now =
     [Print (VStr (nl @ ''=== Hardware Diagnostic Tool ==='')),
      Print (VStr (''Report generated on: '' @ now @ nl))]"

definition flat_sections :: "pydict \<Rightarrow> pydict \<Rightarrow> pydict \<Rightarrow> out list" where
  "flat_sections system_info cpu_info memory_info =
     [Print (VStr (nl @ ''--- System Information ---'')), table system_info,
      Print (VStr (nl @ ''--- CPU Information ---'')), table cpu_info,
      Print (VStr (nl @ ''--- Memory Information ---'')), table memory_info]"

definition report_as_claimed ::
  "string \<Rightarrow> pydict \<Rightarrow> pydict \<Rightarrow> pydict \<Rightarrow> pydict \<Rightarrow> pydict \<Rightarrow> out list" where
  "report_as_claimed now system_info cpu_info memory_info disk_info gpu_info =
     report_head now @ flat_sections system_info cpu_info memory_info
       @ [Print (VStr (nl @ ''--- Disk Information ---''))] @ device_tables disk_info
       @ [Print (VStr (nl @ ''--- GPU Information ---''))] @ device_tables gpu_info"

text \<open>A grouping all of whose values are dictionaries.\<close>

definition all_dicts :: "pydict \<Rightarrow> bool" where
  "all_dicts d = (\<forall>v\<in>set (map snd d). \<exists>e. v = VDict e)"

section \<open>Example runs\<close>

text \<open>
  Concrete providers, on which the theorems below are instantiated. \<open>tenths\<close> prints a
  number with one decimal; it agrees with \<open>str\<close> on the percentages of psutil, which are
  rounded to one decimal.
\<close>

definition tenths :: "rat \<Rightarrow> string" where
  "tenths x =
     (let t = nat (round_half_even (\<bar>x\<bar> * 10))
      in (if x < 0 then ''-'' else '''') @ show_nat (t div 10) @ ''.'' @ [digit_char (t mod 10)])"

definition demo_platform :: platform where
  "demo_platform =
     \<lparr>system = ''Linux'', release = ''6.1.0'', version = ''#1 SMP'', machine = ''x86_64'',
      processor = ''x86_64'', node = ''host''\<rparr>"

text \<open>
  A host with two logical cores, one readable partition and one drive without a medium.
  The first \<open>cpu_percent()\<close> of a process, with no interval, answers \<open>0.0\<close>.
\<close>

definition demo_psutil :: psutil where
  "demo_psutil =
     \<lparr>cpu_freq = Some \<lparr>freq_current = 2400, freq_min = 800, freq_max = 3600\<rparr>,
      cpu_count = (\<lambda>logical. Some (if logical then 2 else 1)),
      cpu_percent = (\<lambda>interval. case interval of None \<Rightarrow> 0 | Some t \<Rightarrow> 25),
      cpu_percent_percpu = (\<lambda>interval. case interval of None \<Rightarrow> [0, 0] | Some t \<Rightarrow> [30, 20]),
      virtual_memory =
        \<lparr>vm_total = 8589934592, vm_available = 4294967296, vm_used = 4294967296,
         vm_percent = 50\<rparr>,
      swap_memory = \<lparr>swap_total = 0, swap_used = 0, swap_free = 0, swap_percent = 0\<rparr>,
      disk_partitions =
        [\<lparr>device = ''/dev/sda1'', mountpoint = ''/'', fstype = ''ext4''\<rparr>,
         \<lparr>device = ''/dev/sr0'', mountpoint = ''/media/cdrom'', fstype = ''iso9660''\<rparr>],
      disk_usage =
        (\<lambda>path. if path = ''/''
           then Inr \<lparr>du_total = 1073741824, du_used = 536870912, du_free = 536870912,
                     du_percent = 50\<rparr>
           else Inl (Exn OtherException ''No medium found''))\<rparr>"

text \<open>The same device mounted at two mountpoints, both readable.\<close>

definition two_mounts_psutil :: psutil where
  "two_mounts_psutil =
     demo_psutil
       \<lparr>disk_partitions :=
          [\<lparr>device = ''/dev/sda1'', mountpoint = ''/'', fstype = ''ext4''\<rparr>,
           \<lparr>device = ''/dev/sda1'', mountpoint = ''/home'', fstype = ''ext4''\<rparr>],
        disk_usage :=
          (\<lambda>path. Inr \<lparr>du_total = 1073741824, du_used = 536870912, du_free = 536870912,
                         du_percent = 50\<rparr>)\<rparr>"

definition no_gputil :: gputil where
  "no_gputil =
     \<lparr>import_GPUtil = Some (Exn ImportError ''No module named GPUtil''), getGPUs = Inr []\<rparr>"

text \<open>GPUtil is installed, and its enumeration fails to import a module of its own.\<close>

definition enum_import_error_gputil :: gputil where
  "enum_import_error_gputil =
     \<lparr>import_GPUtil = None, getGPUs = Inl (Exn ImportError ''No module named pynvml'')\<rparr>"

definition failing_gputil :: gputil where
  "failing_gputil =
     \<lparr>import_GPUtil = None, getGPUs = Inl (Exn OtherException ''nvidia-smi failed'')\<rparr>"

definition demo_gpu :: gpu where
  "demo_gpu =
     \<lparr>gpu_name = ''GeForce'', gpu_id = 0, load = 1 / 2, memoryFree = 1024, memoryUsed = 1024,
      memoryTotal = 2048, temperature = 60, uuid = ''GPU-0000''\<rparr>"

definition two_gputil :: gputil where
  "two_gputil =
     \<lparr>import_GPUtil = None, getGPUs = Inr [demo_gpu, demo_gpu\<lparr>gpu_id := 1, uuid := ''GPU-0001''\<rparr>]\<rparr>"

definition demo_now :: string where
  "demo_now = ''2026-01-01 12:00:00''"

section \<open>Properties of the float model\<close>

lemma rhe_of_int: "round_half_even (of_int n) = n"
  by (simp add: round_half_even_def)

lemma rhe_cases:
  "round_half_even y = \<lfloor>y\<rfloor> \<or> round_half_even y = \<lfloor>y\<rfloor> + 1"
  by (simp add: round_half_even_def Let_def)

lemma rhe_ge: "of_int n \<le> y \<Longrightarrow> n \<le> round_half_even y"
proof -
  assume "of_int n \<le> y"
  then have "n \<le> \<lfloor>y\<rfloor>" by (simp add: le_floor_iff)
  then show ?thesis using rhe_cases [of y] by auto
qed

lemma rhe_lt_half: "y < of_int n + 1 / 2 \<Longrightarrow> round_half_even y \<le> n"
proof -
  assume a: "y < of_int n + 1 / 2"
  show ?thesis
  proof (cases "\<lfloor>y\<rfloor> < n")
    case True
    then show ?thesis using rhe_cases [of y] by auto
  next
    case False
    then have "of_int n \<le> y" by linarith
    moreover have "\<lfloor>y\<rfloor> \<le> n" using a by linarith
    ultimately have f: "\<lfloor>y\<rfloor> = n" using False by linarith
    have "y - of_int \<lfloor>y\<rfloor> < 1 / 2" using a f by simp
    then show ?thesis using f by (simp add: round_half_even_def Let_def)
  qed
qed

lemma rhe_le: "y \<le> of_int n \<Longrightarrow> round_half_even y \<le> n"
  by (rule rhe_lt_half) simp

lemma rhe_err: "\<bar>of_int (round_half_even y) - y\<bar> \<le> 1 / 2"
proof -
  have "of_int \<lfloor>y\<rfloor> \<le> y" "y < of_int \<lfloor>y\<rfloor> + 1" by linarith+
  then show ?thesis
    by (auto simp add: round_half_even_def Let_def)
qed

lemma ilog2_bounds:
  assumes "0 < x"
  shows "2 powi ilog2 x \<le> x" and "x < 2 powi (ilog2 x + 1)"
proof -
  have "2 powi ilog2 x \<le> x \<and> x < 2 powi (ilog2 x + 1)"
  proof (cases "1 \<le> x")
    case True
    define n where "n = \<lfloor>x\<rfloor>"
    have n: "0 < n" using True by (simp add: n_def)
    have k: "1 \<le> bitlen n" using n bitlen_eq_zero_iff [of n] bitlen_nonneg [of n] by linarith
    have b: "2 ^ nat (bitlen n - 1) \<le> n" "n < 2 ^ nat (bitlen n)"
      using bitlen_bounds [OF n] by auto
    have "(2::rat) ^ nat (bitlen n - 1) = of_int (2 ^ nat (bitlen n - 1))" by simp
    also have "\<dots> \<le> of_int n" using b(1) by (simp only: of_int_le_iff)
    also have "\<dots> \<le> x" by (simp add: n_def)
    finally have lo: "(2::rat) ^ nat (bitlen n - 1) \<le> x" .
    have "n + 1 \<le> 2 ^ nat (bitlen n)" using b(2) by simp
    then have "(of_int (n + 1) :: rat) \<le> of_int (2 ^ nat (bitlen n))" by (simp only: of_int_le_iff)
    moreover have "x < of_int (n + 1)" by (simp add: n_def) linarith
    ultimately have hi: "x < 2 ^ nat (bitlen n)" by simp
    have "ilog2 x = bitlen n - 1" using True by (simp add: ilog2_def n_def)
    then show ?thesis using lo hi k by (simp add: power_int_def)
  next
    case False
    define y where "y = 1 / x"
    have y: "1 < y" using False assms by (simp add: y_def)
    define n where "n = \<lceil>y\<rceil> - 1"
    have n: "0 < n" using y by (simp add: n_def)
    have ny: "of_int n < y" "y \<le> of_int n + 1" by (simp_all add: n_def) linarith+
    have k: "1 \<le> bitlen n" using n bitlen_eq_zero_iff [of n] bitlen_nonneg [of n] by linarith
    have b: "2 ^ nat (bitlen n - 1) \<le> n" "n < 2 ^ nat (bitlen n)"
      using bitlen_bounds [OF n] by auto
    have "(2::rat) ^ nat (bitlen n - 1) = of_int (2 ^ nat (bitlen n - 1))" by simp
    also have "\<dots> \<le> of_int n" using b(1) by (simp only: of_int_le_iff)
    also have "\<dots> < y" using ny by simp
    finally have lo: "(2::rat) ^ nat (bitlen n - 1) < y" .
    have "n + 1 \<le> 2 ^ nat (bitlen n)" using b(2) by simp
    then have "(of_int (n + 1) :: rat) \<le> of_int (2 ^ nat (bitlen n))" by (simp only: of_int_le_iff)
    then have hi: "y \<le> 2 ^ nat (bitlen n)" using ny by simp
    have x: "x = 1 / y" using assms by (simp add: y_def)
    have i: "ilog2 x = - bitlen n" using False by (simp add: ilog2_def n_def y_def)
    have p1: "2 powi (- bitlen n) = 1 / (2::rat) ^ nat (bitlen n)"
      using k by (simp add: power_int_def field_simps)
    have p2: "2 powi (- bitlen n + 1) = 1 / (2::rat) ^ nat (bitlen n - 1)"
      using k by (simp add: power_int_def field_simps nat_diff_distrib)
    have "1 / (2::rat) ^ nat (bitlen n) \<le> 1 / y" using hi y by (simp add: frac_le)
    moreover have "1 / y < 1 / (2::rat) ^ nat (bitlen n - 1)" using lo y
      by (simp add: frac_less2)
    ultimately show ?thesis using i p1 p2 x by simp
  qed
  then show "2 powi ilog2 x \<le> x" and "x < 2 powi (ilog2 x + 1)" by auto
qed

lemma pow2_less_iff: "(2::rat) powi a < 2 powi b \<longleftrightarrow> a < b"
proof
  assume l: "(2::rat) powi a < 2 powi b"
  show "a < b"
  proof (rule ccontr)
    assume "\<not> a < b"
    then have "b \<le> a" by simp
    then have "(2::rat) powi b \<le> 2 powi a" by (intro power_int_increasing) simp_all
    then show False using l by simp
  qed
next
  assume "a < b"
  then show "(2::rat) powi a < 2 powi b" by (intro power_int_strict_increasing) simp_all
qed

lemma pow2_le_iff: "(2::rat) powi a \<le> 2 powi b \<longleftrightarrow> a \<le> b"
  using pow2_less_iff [of b a] by (simp add: not_less [symmetric])

lemma pow2_pos: "0 < (2::rat) powi a"
  by simp

lemma pow2_add: "(2::rat) powi (a + b) = 2 powi a * 2 powi b"
  by (simp add: power_int_add)

lemma pow2_diff: "(2::rat) powi (a - b) = 2 powi a / 2 powi b"
  by (simp add: power_int_diff)

lemma ilog2_unique:
  assumes "2 powi k \<le> x" and "x < 2 powi (k + 1)"
  shows "ilog2 x = k"
proof -
  have "0 < (2::rat) powi k" by simp
  then have x: "0 < x" using assms(1) by linarith
  note b = ilog2_bounds [OF x]
  have "(2::rat) powi k < 2 powi (ilog2 x + 1)" using assms(1) b(2) by linarith
  then have 1: "k < ilog2 x + 1" by (simp only: pow2_less_iff)
  have "(2::rat) powi ilog2 x < 2 powi (k + 1)" using assms(2) b(1) by linarith
  then have 2: "ilog2 x < k + 1" by (simp only: pow2_less_iff)
  show ?thesis using 1 2 by simp
qed


lemma rhe_half_odd: "of_int n + 1 / 2 \<le> y \<Longrightarrow> odd n \<Longrightarrow> n + 1 \<le> round_half_even y"
proof -
  assume a: "of_int n + 1 / 2 \<le> y" and o: "odd n"
  show ?thesis
  proof (cases "n < \<lfloor>y\<rfloor>")
    case True
    then show ?thesis using rhe_cases [of y] by auto
  next
    case False
    have "n \<le> \<lfloor>y\<rfloor>" using a by linarith
    then have f: "\<lfloor>y\<rfloor> = n" using False by simp
    have "\<not> y - of_int \<lfloor>y\<rfloor> < 1 / 2" using a f by simp
    then show ?thesis using f o by (simp add: round_half_even_def Let_def)
  qed
qed

lemma double_ulp_exp: "double_ulp x = 2 powi (double_exp x - 52)"
  by (simp add: double_ulp_def)

lemma double_ulp_pos: "0 < double_ulp x"
  by (simp add: double_ulp_def)

lemma double_exp_ge: "- 1022 \<le> double_exp x"
  by (simp add: double_exp_def)

lemma double_exp_upper: "x \<noteq> 0 \<Longrightarrow> \<bar>x\<bar> < 2 powi (double_exp x + 1)"
proof -
  assume "x \<noteq> 0"
  then have "\<bar>x\<bar> < 2 powi (ilog2 \<bar>x\<bar> + 1)" by (intro ilog2_bounds) simp
  also have "\<dots> \<le> 2 powi (double_exp x + 1)"
    by (simp only: pow2_le_iff) (simp add: double_exp_def)
  finally show ?thesis .
qed

lemma double_exp_cases:
  "x \<noteq> 0 \<Longrightarrow> double_exp x = - 1022 \<or> (double_exp x = ilog2 \<bar>x\<bar> \<and> 2 powi double_exp x \<le> \<bar>x\<bar>)"
proof -
  assume "x \<noteq> 0"
  then have "2 powi ilog2 \<bar>x\<bar> \<le> \<bar>x\<bar>" by (intro ilog2_bounds) simp
  then show ?thesis by (auto simp add: double_exp_def max_def)
qed

lemma double_exp_of_bounds:
  "2 powi k \<le> \<bar>x\<bar> \<Longrightarrow> \<bar>x\<bar> < 2 powi (k + 1) \<Longrightarrow> - 1022 \<le> k \<Longrightarrow> double_exp x = k"
  by (simp add: double_exp_def ilog2_unique)

lemma rd_grid_le:
  assumes "x \<noteq> 0" and "x \<le> of_int n * double_ulp x"
  shows "round_double x \<le> of_int n * double_ulp x"
proof -
  have "x / double_ulp x \<le> of_int n" using assms(2) double_ulp_pos [of x]
    by (simp add: pos_divide_le_eq)
  then have "round_half_even (x / double_ulp x) \<le> n" by (rule rhe_le)
  then have "(of_int (round_half_even (x / double_ulp x)) :: rat) \<le> of_int n"
    by (simp only: of_int_le_iff)
  then show ?thesis using assms(1) double_ulp_pos [of x]
    by (simp add: round_double_def mult_right_mono)
qed

lemma rd_grid_ge:
  assumes "x \<noteq> 0" and "of_int n * double_ulp x \<le> x"
  shows "of_int n * double_ulp x \<le> round_double x"
proof -
  have "of_int n \<le> x / double_ulp x" using assms(2) double_ulp_pos [of x]
    by (simp add: pos_le_divide_eq)
  then have "n \<le> round_half_even (x / double_ulp x)" by (rule rhe_ge)
  then have "(of_int n :: rat) \<le> of_int (round_half_even (x / double_ulp x))"
    by (simp only: of_int_le_iff)
  then show ?thesis using assms(1) double_ulp_pos [of x]
    by (simp add: round_double_def mult_right_mono)
qed

lemma rd_grid_lt_half:
  assumes "x \<noteq> 0" and "x < (of_int n + 1 / 2) * double_ulp x"
  shows "round_double x \<le> of_int n * double_ulp x"
proof -
  have "x / double_ulp x < of_int n + 1 / 2" using assms(2) double_ulp_pos [of x]
    by (simp add: pos_divide_less_eq)
  then have "round_half_even (x / double_ulp x) \<le> n" by (rule rhe_lt_half)
  then have "(of_int (round_half_even (x / double_ulp x)) :: rat) \<le> of_int n"
    by (simp only: of_int_le_iff)
  then show ?thesis using assms(1) double_ulp_pos [of x]
    by (simp add: round_double_def mult_right_mono)
qed

lemma rd_grid_half_odd:
  assumes "x \<noteq> 0" and "(of_int n + 1 / 2) * double_ulp x \<le> x" and "odd n"
  shows "of_int (n + 1) * double_ulp x \<le> round_double x"
proof -
  have "of_int n + 1 / 2 \<le> x / double_ulp x" using assms(2) double_ulp_pos [of x]
    by (simp add: pos_le_divide_eq)
  then have "n + 1 \<le> round_half_even (x / double_ulp x)" using assms(3) by (rule rhe_half_odd)
  then have "(of_int (n + 1) :: rat) \<le> of_int (round_half_even (x / double_ulp x))"
    by (simp only: of_int_le_iff)
  then show ?thesis using assms(1) double_ulp_pos [of x]
    by (simp add: round_double_def mult_right_mono)
qed

lemma rd_error: "\<bar>round_double x - x\<bar> \<le> double_ulp x / 2"
proof (cases "x = 0")
  case True
  then show ?thesis using double_ulp_pos [of 0] by (simp add: round_double_def)
next
  case False
  define u where "u = double_ulp x"
  have u: "0 < u" by (simp add: u_def double_ulp_pos)
  define n where "n = round_half_even (x / u)"
  have "\<bar>of_int n - x / u\<bar> \<le> 1 / 2" unfolding n_def by (rule rhe_err)
  then have "\<bar>of_int n - x / u\<bar> * u \<le> 1 / 2 * u" using u by (simp only: mult_le_cancel_right_pos)
  moreover have "\<bar>of_int n - x / u\<bar> * u = \<bar>(of_int n - x / u) * u\<bar>"
    using u by (simp add: abs_mult)
  moreover have "(of_int n - x / u) * u = of_int n * u - x"
    using u by (simp add: field_simps)
  ultimately show ?thesis using False by (simp add: round_double_def n_def u_def)
qed

lemma rd_pow2_le:
  assumes "2 powi k \<le> x" and "- 1022 \<le> k"
  shows "2 powi k \<le> round_double x"
proof -
  have x: "0 < x" using assms(1) pow2_pos [of k] by linarith
  then have ax: "\<bar>x\<bar> = x" "x \<noteq> 0" by simp_all
  have "(2::rat) powi k < 2 powi (double_exp x + 1)"
    using double_exp_upper [of x] assms(1) ax by simp
  then have ke: "k \<le> double_exp x" by (simp add: pow2_less_iff)
  have "2 powi double_exp x \<le> \<bar>x\<bar>"
  proof (cases "double_exp x = - 1022")
    case True
    then have "k = - 1022" using ke assms(2) by simp
    then show ?thesis using assms(1) ax True by simp
  next
    case False
    then show ?thesis using double_exp_cases [of x] ax(2) by blast
  qed
  then have le: "2 powi double_exp x \<le> x" by (simp only: ax(1))
  have "(2::rat) powi double_exp x = of_int (2 ^ 52) * double_ulp x"
    by (simp add: double_ulp_exp pow2_diff)
  then have "2 powi double_exp x \<le> round_double x"
    using rd_grid_ge [of x "2 ^ 52"] le ax by simp
  moreover have "(2::rat) powi k \<le> 2 powi double_exp x" using ke by (simp only: pow2_le_iff)
  ultimately show ?thesis by linarith
qed


lemma pow2_nat: "0 \<le> d \<Longrightarrow> (2::rat) ^ nat d = 2 powi d"
  by (simp add: power_int_def)

lemma double_mantissa_bound:
  assumes "\<bar>m\<bar> < 2 ^ 53"
  shows "\<bar>of_int m * 2 powi e :: rat\<bar> < 2 powi (53 + e)"
proof -
  have a: "(of_int \<bar>m\<bar> :: rat) < of_int (2 ^ 53)" using assms by (simp only: of_int_less_iff)
  have b: "(of_int (2 ^ 53) :: rat) = 2 powi 53" by simp
  have "\<bar>of_int m * 2 powi e :: rat\<bar> = of_int \<bar>m\<bar> * 2 powi e" by (simp add: abs_mult)
  also have "\<dots> < 2 powi 53 * 2 powi e"
    using a unfolding b by (rule mult_strict_right_mono) simp
  also have "\<dots> = 2 powi (53 + e)" by (simp only: pow2_add)
  finally show ?thesis .
qed

lemma double_on_grid:
  assumes "x \<noteq> 0" and "is_double g" and "\<bar>x\<bar> \<le> \<bar>g\<bar>"
  shows "\<exists>n. g = of_int n * double_ulp x"
proof -
  from assms(2) obtain m e where g: "g = of_int m * 2 powi e" and m: "\<bar>m\<bar> < 2 ^ 53"
    and e: "- 1074 \<le> e" unfolding is_double_def by blast
  have gl: "\<bar>g\<bar> < 2 powi (53 + e)" unfolding g using m by (rule double_mantissa_bound)
  have "double_exp x - 52 \<le> e"
  proof (cases "double_exp x = - 1022")
    case True
    then show ?thesis using e by simp
  next
    case False
    then have "2 powi double_exp x \<le> \<bar>x\<bar>" using double_exp_cases [of x] assms(1) by blast
    then have "(2::rat) powi double_exp x < 2 powi (53 + e)" using gl assms(3) by linarith
    then show ?thesis by (simp add: pow2_less_iff)
  qed
  then have d: "0 \<le> e - (double_exp x - 52)" by simp
  have "(2::rat) powi e = 2 powi (e - (double_exp x - 52)) * 2 powi (double_exp x - 52)"
    by (simp add: pow2_add [symmetric])
  also have "\<dots> = 2 ^ nat (e - (double_exp x - 52)) * double_ulp x"
    using d by (simp only: pow2_nat double_ulp_exp)
  finally have "g = of_int (m * 2 ^ nat (e - (double_exp x - 52))) * double_ulp x"
    by (simp add: g)
  then show ?thesis by blast
qed

lemma rd_exact: "is_double x \<Longrightarrow> round_double x = x"
proof (cases "x = 0")
  case True
  then show ?thesis by (simp add: round_double_def)
next
  case False
  assume "is_double x"
  then obtain n where n: "x = of_int n * double_ulp x"
    using double_on_grid [OF False, of x] by auto
  have "x / double_ulp x = of_int n" using double_ulp_pos [of x] n
    by (metis less_irrefl nonzero_mult_div_cancel_right)
  then have "round_half_even (x / double_ulp x) = n" by (simp only: rhe_of_int)
  then show ?thesis using False n by (simp add: round_double_def)
qed

lemma rd_le_double:
  assumes "0 < x" and "x \<le> g" and "is_double g"
  shows "round_double x \<le> g"
proof -
  have "x \<noteq> 0" "\<bar>x\<bar> \<le> \<bar>g\<bar>" using assms(1,2) by simp_all
  then obtain n where n: "g = of_int n * double_ulp x"
    using double_on_grid [OF _ assms(3), of x] by auto
  have "round_double x \<le> of_int n * double_ulp x"
    using assms(1,2) n by (intro rd_grid_le) simp_all
  then show ?thesis using n by simp
qed

lemma rd_nonneg: "0 \<le> x \<Longrightarrow> 0 \<le> round_double x"
proof (cases "x = 0")
  case True
  then show ?thesis by (simp add: round_double_def)
next
  case False
  assume "0 \<le> x"
  then show ?thesis using rd_grid_ge [OF False, of 0] by simp
qed

lemma is_double_pow2: "- 1074 \<le> k \<Longrightarrow> is_double (2 powi k)"
  unfolding is_double_def by (rule exI [of _ 1], rule exI [of _ k]) simp

lemma is_double_int: "\<bar>m\<bar> < 2 ^ 53 \<Longrightarrow> is_double (of_int m)"
  unfolding is_double_def by (rule exI [of _ m], rule exI [of _ 0]) simp

lemma is_double_rd: "is_double (round_double x)"
proof (cases "x = 0")
  case True
  then show ?thesis using is_double_int [of 0] by (simp add: round_double_def)
next
  case False
  define u where "u = double_ulp x"
  define n where "n = round_half_even (x / u)"
  have u: "0 < u" by (simp add: u_def double_ulp_pos)
  have r: "round_double x = of_int n * 2 powi (double_exp x - 52)"
    using False by (simp add: round_double_def n_def u_def double_ulp_exp)
  have "\<bar>x\<bar> < 2 powi (double_exp x + 1)" using False by (rule double_exp_upper)
  also have "\<dots> = 2 ^ 53 * u" by (simp add: u_def double_ulp_exp pow2_diff pow2_add)
  finally have ax: "\<bar>x\<bar> < 2 ^ 53 * u" .
  have "x < 2 ^ 53 * u" "- (2 ^ 53 * u) < x" using ax by linarith+
  then have "x / u < 2 ^ 53" "- (2 ^ 53) < x / u"
    using u by (simp_all add: pos_divide_less_eq pos_less_divide_eq)
  then have b: "x / u \<le> of_int (2 ^ 53)" "of_int (- (2 ^ 53)) \<le> x / u" by simp_all
  have "n \<le> 2 ^ 53" unfolding n_def using b(1) by (rule rhe_le)
  moreover have "- (2 ^ 53) \<le> n" unfolding n_def using b(2) by (rule rhe_ge)
  ultimately have "n \<le> 2 ^ 53" "- (2 ^ 53) \<le> n" by simp_all
  then consider "\<bar>n\<bar> < 2 ^ 53" | "n = 2 ^ 53" | "n = - (2 ^ 53)" by linarith
  then show ?thesis
  proof cases
    case 1
    have "- 1074 \<le> double_exp x - 52" using double_exp_ge [of x] by simp
    then show ?thesis unfolding is_double_def r using 1 by blast
  next
    case 2
    have "round_double x = of_int (2 ^ 52) * 2 powi (double_exp x - 51)"
      by (simp add: r 2 pow2_diff)
    moreover have "- 1074 \<le> double_exp x - 51" using double_exp_ge [of x] by simp
    moreover have "\<bar>2 ^ 52 :: int\<bar> < 2 ^ 53" by simp
    ultimately show ?thesis unfolding is_double_def by blast
  next
    case 3
    have "round_double x = of_int (- (2 ^ 52)) * 2 powi (double_exp x - 51)"
      by (simp add: r 3 pow2_diff)
    moreover have "- 1074 \<le> double_exp x - 51" using double_exp_ge [of x] by simp
    moreover have "\<bar>- (2 ^ 52) :: int\<bar> < 2 ^ 53" by simp
    ultimately show ?thesis unfolding is_double_def by blast
  qed
qed

lemma is_double_div_1024:
  assumes "is_double x" and "1024 \<le> \<bar>x\<bar>"
  shows "is_double (x / 1024)"
proof -
  from assms(1) obtain m e where x: "x = of_int m * 2 powi e" and m: "\<bar>m\<bar> < 2 ^ 53"
    and e: "- 1074 \<le> e" unfolding is_double_def by blast
  have "\<bar>x\<bar> < 2 powi (53 + e)" unfolding x using m by (rule double_mantissa_bound)
  moreover have "(1024::rat) = 2 powi 10" by simp
  ultimately have "(2::rat) powi 10 < 2 powi (53 + e)" using assms(2) by linarith
  then have "10 < 53 + e" by (simp only: pow2_less_iff)
  then have "- 1074 \<le> e - 10" by simp
  moreover have "x / 1024 = of_int m * 2 powi (e - 10)" by (simp add: x pow2_diff)
  ultimately show ?thesis unfolding is_double_def using m by blast
qed

lemma rd_below_pow2:
  assumes "0 < x" and "x < 2 powi k - 2 powi (k - 54)" and "- 1021 \<le> k"
  shows "round_double x \<le> 2 powi k - 2 powi (k - 53)"
proof -
  have x0: "x \<noteq> 0" "\<bar>x\<bar> = x" using assms(1) by simp_all
  have xk: "x < 2 powi k" using assms(2) pow2_pos [of "k - 54"] by linarith
  have ek: "double_exp x \<le> k - 1"
  proof (cases "double_exp x = - 1022")
    case True
    then show ?thesis using assms(3) by simp
  next
    case False
    then have "2 powi double_exp x \<le> \<bar>x\<bar>" using double_exp_cases [of x] x0(1) by blast
    then have "(2::rat) powi double_exp x < 2 powi k" using xk x0(2) by linarith
    then show ?thesis by (simp add: pow2_less_iff)
  qed
  show ?thesis
  proof (cases "double_exp x = k - 1")
    case True
    have u: "double_ulp x = 2 powi (k - 53)" by (simp add: double_ulp_exp True)
    have k: "(2::rat) powi k = 2 ^ 53 * 2 powi (k - 53)"
      "(2::rat) powi (k - 54) = 2 powi (k - 53) / 2" by (simp_all add: pow2_diff)
    have "x < (of_int (2 ^ 53 - 1) + 1 / 2) * double_ulp x"
      using assms(2) by (simp add: u k field_simps)
    then have "round_double x \<le> of_int (2 ^ 53 - 1) * double_ulp x"
      using x0(1) by (intro rd_grid_lt_half)
    then show ?thesis by (simp add: u k field_simps)
  next
    case False
    then have e2: "double_exp x + 1 \<le> k - 1" using ek by simp
    have "x < 2 powi (double_exp x + 1)" using double_exp_upper [OF x0(1)] x0(2) by simp
    moreover have "(2::rat) powi (double_exp x + 1) = of_int (2 ^ 53) * double_ulp x"
      by (simp add: double_ulp_exp pow2_diff pow2_add)
    ultimately have "round_double x \<le> of_int (2 ^ 53) * double_ulp x"
      using x0(1) by (intro rd_grid_le) simp_all
    then have "round_double x \<le> 2 powi (double_exp x + 1)"
      using \<open>(2::rat) powi (double_exp x + 1) = of_int (2 ^ 53) * double_ulp x\<close> by simp
    moreover have "(2::rat) powi (double_exp x + 1) \<le> 2 powi (k - 1)"
      using e2 by (simp only: pow2_le_iff)
    moreover have "(2::rat) powi (k - 1) \<le> 2 powi k - 2 powi (k - 53)"
    proof -
      have "(2::rat) powi (k - 53) \<le> 2 powi (k - 1)" by (simp add: pow2_le_iff)
      moreover have "(2::rat) powi k = 2 * 2 powi (k - 1)" by (simp add: pow2_diff)
      ultimately show ?thesis by simp
    qed
    ultimately show ?thesis by linarith
  qed
qed

lemma rd_reaches_pow2:
  assumes "2 powi k - 2 powi (k - 54) \<le> x" and "- 1021 \<le> k"
  shows "2 powi k \<le> round_double x"
proof (cases "2 powi k \<le> x")
  case True
  then show ?thesis using assms(2) by (intro rd_pow2_le) simp_all
next
  case False
  have h: "(2::rat) powi k = 2 * 2 powi (k - 1)" by (simp add: pow2_diff)
  have "(2::rat) powi (k - 54) \<le> 2 powi (k - 1)" by (simp add: pow2_le_iff)
  then have lo: "2 powi (k - 1) \<le> x" using assms(1) h by linarith
  then have x0: "x \<noteq> 0" "\<bar>x\<bar> = x" using pow2_pos [of "k - 1"] by linarith+
  have "double_exp x = k - 1" using lo False x0(2) assms(2)
    by (intro double_exp_of_bounds) simp_all
  then have u: "double_ulp x = 2 powi (k - 53)" by (simp add: double_ulp_exp)
  have k: "(2::rat) powi k = 2 ^ 53 * 2 powi (k - 53)"
    "(2::rat) powi (k - 54) = 2 powi (k - 53) / 2" by (simp_all add: pow2_diff)
  have "(of_int (2 ^ 53 - 1) + 1 / 2) * double_ulp x \<le> x"
    using assms(1) by (simp add: u k field_simps)
  moreover have "odd (2 ^ 53 - 1 :: int)" by simp
  ultimately have "of_int (2 ^ 53 - 1 + 1) * double_ulp x \<le> round_double x"
    using x0(1) by (intro rd_grid_half_odd)
  then show ?thesis by (simp add: u k)
qed

section \<open>Properties of the unit formatter\<close>

lemma not_overflow_small: "\<bar>y\<bar> < 2 ^ 1024 \<Longrightarrow> \<not> double_overflow y"
  by (simp add: double_overflow_def)

lemma get_size_loop_hit:
  assumes "is_double x" and "j < length us" and "j = 0 \<or> 1024 ^ j \<le> x" and "x < 1024 ^ Suc j"
  shows "get_size_loop us (PFloat x) = Inr (Some (fmt_2f (x / 1024 ^ j) @ us ! j @ ''B''))"
  using assms
proof (induction j arbitrary: us x)
  case 0
  then obtain u us' where "us = u # us'" by (cases us) auto
  then show ?case using 0 by simp
next
  case (Suc j)
  then obtain u us' where us: "us = u # us'" by (cases us) auto
  have ge: "1024 ^ Suc j \<le> x" using Suc.prems(3) by simp
  have "(1024::rat) \<le> 1024 ^ Suc j" by (simp add: self_le_power)
  then have x: "1024 \<le> x" using ge by linarith
  have d: "is_double (x / 1024)" using Suc.prems(1) x by (intro is_double_div_1024) simp_all
  have r: "round_double (x / 1024) = x / 1024" using d by (rule rd_exact)
  have "get_size_loop us' (PFloat (x / 1024)) =
      Inr (Some (fmt_2f (x / 1024 / 1024 ^ j) @ us' ! j @ ''B''))"
  proof (rule Suc.IH [OF d])
    show "j < length us'" using Suc.prems(2) us by simp
    show "j = 0 \<or> 1024 ^ j \<le> x / 1024" using ge by (simp add: field_simps)
    show "x / 1024 < 1024 ^ Suc j" using Suc.prems(4) by (simp add: field_simps)
  qed
  moreover have "get_size_loop us (PFloat x) = get_size_loop us' (PFloat (x / 1024))"
    using x by (simp add: us r)
  ultimately show ?case by (simp add: us)
qed

lemma get_size_loop_miss:
  assumes "is_double x" and "1024 ^ length us \<le> x"
  shows "get_size_loop us (PFloat x) = Inr None"
  using assms
proof (induction us arbitrary: x)
  case Nil
  then show ?case by simp
next
  case (Cons u us)
  have ge: "1024 * 1024 ^ length us \<le> x" using Cons.prems(2) by simp
  have "(1::rat) \<le> 1024 ^ length us" by simp
  then have x: "1024 \<le> x" using ge by linarith
  have d: "is_double (x / 1024)" using Cons.prems(1) x by (intro is_double_div_1024) simp_all
  have r: "round_double (x / 1024) = x / 1024" using d by (rule rd_exact)
  have "get_size_loop us (PFloat (x / 1024)) = Inr None"
    using d ge by (intro Cons.IH) (simp_all add: field_simps)
  moreover have "get_size_loop (u # us) (PFloat x) = get_size_loop us (PFloat (x / 1024))"
    using x by (simp add: r)
  ultimately show ?case by simp
qed

lemma get_size_small:
  assumes "0 \<le> b" and "b < 1024"
  shows "get_size b = Inr (Some (fmt_2f (of_int b) @ ''B''))"
proof -
  have "\<bar>b\<bar> < 2 ^ 53" using assms by simp
  then have r: "round_double (of_int b) = of_int b" by (intro rd_exact is_double_int)
  have "\<bar>of_int b :: rat\<bar> < 1024" using assms by simp
  then have "\<not> double_overflow (of_int b)" by (intro not_overflow_small) simp
  then show ?thesis using assms r by (simp add: get_size_def size_units_def)
qed

lemma get_size_large:
  assumes "1024 \<le> b"
  shows "get_size b =
    (if double_overflow (round_double (of_int b / 1024))
     then Inl (Exn OverflowError ''integer division result too large for a float'')
     else get_size_loop [''K'', ''M'', ''G'', ''T'', ''P''] (PFloat (round_double (of_int b / 1024))))"
  using assms by (simp add: get_size_def size_units_def Let_def)

lemma rd_int_div_exact:
  assumes "\<bar>b\<bar> < 2 ^ 53"
  shows "round_double (of_int b / 1024) = of_int b / 1024"
proof -
  have "(of_int b :: rat) / 1024 = of_int b * 2 powi (- 10)" by simp
  then have "is_double (of_int b / 1024)" unfolding is_double_def using assms by fastforce
  then show ?thesis by (rule rd_exact)
qed

lemma get_size_value:
  assumes "1024 \<le> b" and "\<bar>round_double (of_int b / 1024)\<bar> < 2 ^ 1024" and "j < 5"
    and "j = 0 \<or> 1024 ^ j \<le> round_double (of_int b / 1024)"
    and "round_double (of_int b / 1024) < 1024 ^ Suc j"
  shows "get_size b =
    Inr (Some (fmt_2f (round_double (of_int b / 1024) / 1024 ^ j) @ size_units ! Suc j @ ''B''))"
proof -
  define x where "x = round_double (of_int b / 1024)"
  have d: "is_double x" unfolding x_def by (rule is_double_rd)
  have "get_size_loop [''K'', ''M'', ''G'', ''T'', ''P''] (PFloat x) =
      Inr (Some (fmt_2f (x / 1024 ^ j) @ [''K'', ''M'', ''G'', ''T'', ''P''] ! j @ ''B''))"
    using d assms(3,4,5) unfolding x_def [symmetric] by (intro get_size_loop_hit) simp_all
  moreover have "\<not> double_overflow x" using assms(2) unfolding x_def by (rule not_overflow_small)
  moreover have "size_units ! Suc j = [''K'', ''M'', ''G'', ''T'', ''P''] ! j"
    by (simp add: size_units_def)
  ultimately show ?thesis using get_size_large [OF assms(1)] unfolding x_def [symmetric] by simp
qed

lemma get_size_exact:
  assumes "1024 \<le> b" and "b < 2 ^ 53" and "j < 5"
    and "1024 ^ Suc j \<le> b" and "b < 1024 ^ Suc (Suc j)"
  shows "get_size b = Inr (Some (fmt_2f (of_int b / 1024 ^ Suc j) @ size_units ! Suc j @ ''B''))"
proof -
  have "\<bar>b\<bar> < 2 ^ 53" using assms(1,2) by simp
  then have r: "round_double (of_int b / 1024) = of_int b / 1024" by (rule rd_int_div_exact)
  have b1: "(of_int (1024 ^ Suc j) :: rat) \<le> of_int b" using assms(4) by (simp only: of_int_le_iff)
  have b2: "(of_int b :: rat) < of_int (1024 ^ Suc (Suc j))" using assms(5) by (simp only: of_int_less_iff)
  have b3: "(of_int b :: rat) < of_int (2 ^ 53)" using assms(2) by (simp only: of_int_less_iff)
  have "get_size b =
    Inr (Some (fmt_2f (round_double (of_int b / 1024) / 1024 ^ j) @ size_units ! Suc j @ ''B''))"
  proof (rule get_size_value [OF assms(1) _ assms(3)])
    show "\<bar>round_double (of_int b / 1024)\<bar> < 2 ^ 1024" using b3 assms(1) by (simp add: r)
    show "j = 0 \<or> 1024 ^ j \<le> round_double (of_int b / 1024)" using b1 by (simp add: r)
    show "round_double (of_int b / 1024) < 1024 ^ Suc j" using b2 by (simp add: r)
  qed
  then show ?thesis by (simp add: r)
qed

text \<open>
  Claim C2: \<open>get_size(0)\<close> returns \<open>"0.00B"\<close>, \<open>get_size(1024)\<close> returns \<open>"1.00KB"\<close>,
  \<open>get_size(1536)\<close> returns \<open>"1.50KB"\<close> and \<open>get_size(1024**3)\<close> returns \<open>"1.00GB"\<close>.
\<close>

theorem get_size_examples:
  "get_size 0 = Inr (Some ''0.00B'') \<and> get_size 1024 = Inr (Some ''1.00KB'')
   \<and> get_size 1536 = Inr (Some ''1.50KB'') \<and> get_size (1024 ^ 3) = Inr (Some ''1.00GB'')"
proof -
  have f: "fmt_2f 0 = ''0.00''" "fmt_2f 1 = ''1.00''" "fmt_2f (3 / 2) = ''1.50''"
    by (simp_all add: fmt_2f_def hundredths_def round_half_even_def digit_char_def
        show_nat.simps)
  have "get_size 0 = Inr (Some ''0.00B'')" by (simp add: get_size_small f)
  moreover have "get_size 1024 = Inr (Some ''1.00KB'')"
    using get_size_exact [of 1024 0] by (simp add: f size_units_def)
  moreover have "get_size 1536 = Inr (Some ''1.50KB'')"
    using get_size_exact [of 1536 0] by (simp add: f size_units_def)
  moreover have "get_size (1024 ^ 3) = Inr (Some ''1.00GB'')"
    using get_size_exact [of "1024 ^ 3" 2] by (simp add: f size_units_def)
  ultimately show ?thesis by simp
qed

lemma double_exp_le:
  assumes "x \<noteq> 0" and "\<bar>x\<bar> < 2 powi (k + 1)" and "- 1022 \<le> k"
  shows "double_exp x \<le> k"
proof (cases "double_exp x = - 1022")
  case True
  then show ?thesis using assms(3) by simp
next
  case False
  then have "2 powi double_exp x \<le> \<bar>x\<bar>" using double_exp_cases [of x] assms(1) by blast
  then have "(2::rat) powi double_exp x < 2 powi (k + 1)" using assms(2) by linarith
  then show ?thesis by (simp add: pow2_less_iff)
qed

lemma rd_int_div_bounds:
  assumes "1024 \<le> b" and "b < 1024 ^ 6 - 64"
  shows "1 \<le> round_double (of_int b / 1024)"
    and "round_double (of_int b / 1024) < 1024 ^ 5"
    and "\<bar>round_double (of_int b / 1024) * 1024 - of_int b\<bar> \<le> 64"
proof -
  define x :: rat where "x = of_int b / 1024"
  have b1: "(of_int 1024 :: rat) \<le> of_int b" using assms(1) by (simp only: of_int_le_iff)
  have b2: "(of_int b :: rat) < of_int (1024 ^ 6 - 64)" using assms(2) by (simp only: of_int_less_iff)
  have x1: "1 \<le> x" using b1 by (simp add: x_def)
  have x2: "x < 2 powi 50 - 2 powi (50 - 54)" using b2 by (simp add: x_def)
  have "2 powi 0 \<le> x" using x1 by simp
  then have "2 powi 0 \<le> round_double x" by (rule rd_pow2_le) simp
  then show "1 \<le> round_double (of_int b / 1024)" by (simp add: x_def)
  have "round_double x \<le> 2 powi 50 - 2 powi (50 - 53)"
    using x1 x2 by (intro rd_below_pow2) simp_all
  then show "round_double (of_int b / 1024) < 1024 ^ 5" by (simp add: x_def)
  have "\<bar>x\<bar> < 2 powi (49 + 1)" using x1 x2 by simp
  then have "double_exp x \<le> 49" using x1 by (intro double_exp_le) simp_all
  then have "double_exp x - 52 \<le> - 3" by simp
  then have "(2::rat) powi (double_exp x - 52) \<le> 2 powi (- 3)" by (simp only: pow2_le_iff)
  then have "double_ulp x / 2 \<le> 1 / 16" by (simp add: double_ulp_def)
  then have "\<bar>round_double x - x\<bar> \<le> 1 / 16" using rd_error [of x] by linarith
  then have "\<bar>round_double x - x\<bar> * 1024 \<le> 64" by simp
  moreover have "\<bar>d\<bar> * 1024 = \<bar>d * 1024\<bar>" for d :: rat
    by (simp add: abs_mult)
  then have "\<bar>round_double x - x\<bar> * 1024 = \<bar>(round_double x - x) * 1024\<bar>" .
  moreover have "(round_double x - x) * 1024 = round_double x * 1024 - of_int b"
    by (simp add: x_def field_simps)
  ultimately show "\<bar>round_double (of_int b / 1024) * 1024 - of_int b\<bar> \<le> 64"
    by (simp add: x_def)
qed

lemma unit_exists:
  assumes "x < 1024 ^ Suc n"
  shows "\<exists>j\<le>n. (j = 0 \<or> 1024 ^ j \<le> x) \<and> (x::rat) < 1024 ^ Suc j"
  using assms
proof (induction n)
  case 0
  then show ?case by simp
next
  case (Suc n)
  show ?case
  proof (cases "x < 1024 ^ Suc n")
    case True
    then obtain j where "j \<le> n" "(j = 0 \<or> 1024 ^ j \<le> x) \<and> x < 1024 ^ Suc j"
      using Suc.IH by blast
    then show ?thesis using le_Suc_eq by blast
  next
    case False
    then have "1024 ^ Suc n \<le> x" by simp
    then show ?thesis using Suc.prems by blast
  qed
qed

lemma get_size_none:
  assumes "1024 ^ 6 - 64 \<le> b" and "b < 2 ^ 1034 - 2 ^ 980"
  shows "get_size b = Inr None"
proof -
  define x :: rat where "x = of_int b / 1024"
  have b1: "(of_int (1024 ^ 6 - 64) :: rat) \<le> of_int b" using assms(1) by (simp only: of_int_le_iff)
  have b2: "(of_int b :: rat) < of_int (2 ^ 1034 - 2 ^ 980)" using assms(2) by (simp only: of_int_less_iff)
  have "2 powi 50 - 2 powi (50 - 54) \<le> x" using b1 by (simp add: x_def)
  then have lo: "2 powi 50 \<le> round_double x" by (rule rd_reaches_pow2) simp
  have x0: "0 < x" using b1 by (simp add: x_def)
  have "x < 2 powi 1024 - 2 powi (1024 - 54)" using b2 by (simp add: x_def)
  then have "round_double x \<le> 2 powi 1024 - 2 powi (1024 - 53)"
    using x0 by (intro rd_below_pow2) simp_all
  then have hi: "round_double x < 2 ^ 1024" by simp
  have "\<bar>round_double x\<bar> < 2 ^ 1024" using lo hi by simp
  then have o: "\<not> double_overflow (round_double x)" by (rule not_overflow_small)
  have "get_size_loop [''K'', ''M'', ''G'', ''T'', ''P''] (PFloat (round_double x)) = Inr None"
    using lo by (intro get_size_loop_miss is_double_rd) simp
  moreover have "1024 \<le> b" using assms(1) by simp
  ultimately show ?thesis using o get_size_large [of b] by (simp add: x_def)
qed

lemma get_size_overflow:
  assumes "2 ^ 1034 - 2 ^ 980 \<le> b"
  shows "get_size b = Inl (Exn OverflowError ''integer division result too large for a float'')"
proof -
  define x :: rat where "x = of_int b / 1024"
  have b1: "(of_int (2 ^ 1034 - 2 ^ 980) :: rat) \<le> of_int b" using assms(1) by (simp only: of_int_le_iff)
  have "2 powi 1024 - 2 powi (1024 - 54) \<le> x" using b1 by (simp add: x_def)
  then have "2 powi 1024 \<le> round_double x" by (rule rd_reaches_pow2) simp
  then have "double_overflow (round_double x)" by (simp add: double_overflow_def)
  moreover have "1024 \<le> b" using assms(1) by simp
  ultimately show ?thesis using get_size_large [of b] by (simp add: x_def)
qed

text \<open>
  Claim C3, as amended: for every byte count \<open>b\<close> with \<open>1024^6 \<le> b < 2^1034 - 2^980\<close>,
  \<open>get_size\<close> leaves its loop without a \<open>return\<close> and yields \<open>None\<close>; from
  \<open>2^1034 - 2^980\<close> on, the first \<open>bytes /= 1024\<close> raises \<open>OverflowError\<close>. In neither
  case is a formatted string produced.
\<close>

theorem get_size_beyond_P:
  assumes "1024 ^ 6 \<le> b"
  shows "get_size b =
    (if b < 2 ^ 1034 - 2 ^ 980 then Inr None
     else Inl (Exn OverflowError ''integer division result too large for a float''))"
proof (cases "b < 2 ^ 1034 - 2 ^ 980")
  case True
  then show ?thesis using assms get_size_none [of b] by simp
next
  case False
  then show ?thesis using get_size_overflow [of b] by simp
qed

theorem get_size_beyond_P_witness:
  "(1024::int) ^ 6 \<le> 2 ^ 64 \<and> get_size (2 ^ 64) = Inr None"
  using get_size_beyond_P [of "2 ^ 64"] by simp

text \<open>
  The claim as stated (every byte count from \<open>1024^6\<close> on runs through the loop and gives
  \<open>None\<close>) fails at \<open>2^1034\<close>, where the integer true division raises.
\<close>

theorem get_size_huge_raises:
  "(1024::int) ^ 6 \<le> 2 ^ 1034 \<and>
   get_size (2 ^ 1034) = Inl (Exn OverflowError ''integer division result too large for a float'')"
  using get_size_overflow [of "2 ^ 1034"] by simp

text \<open>
  Claim C1 as stated fails just below \<open>1024^6\<close>: the first division rounds
  \<open>(1024^6 - 1) / 1024\<close> up to \<open>2^50\<close>, which the last unit no longer takes.
\<close>

theorem get_size_none_below_P:
  "(0::int) \<le> 1024 ^ 6 - 1 \<and> (1024 ^ 6 - 1 :: int) < 1024 ^ 6 \<and> get_size (1024 ^ 6 - 1) = Inr None"
  using get_size_none [of "1024 ^ 6 - 1"] by simp

section \<open>Reading a formatted size back\<close>

lemma digit_cases:
  "d < 10 \<Longrightarrow>
   d = 0 \<or> d = 1 \<or> d = 2 \<or> d = 3 \<or> d = 4 \<or> d = 5 \<or> d = 6 \<or> d = 7 \<or> d = 8 \<or> d = (9::nat)"
  by arith

lemma digit_val_digit_char: "d < 10 \<Longrightarrow> digit_val (digit_char d) = Some d"
  using digit_cases [of d] by (auto simp add: digit_val_def digit_char_def)

lemma digit_char_not_dot: "d < 10 \<Longrightarrow> digit_char d \<noteq> CHR ''.''"
  using digit_cases [of d] by (auto simp add: digit_char_def)

lemma parse_digits_append:
  "parse_digits acc (s @ t) =
     (case parse_digits acc s of None \<Rightarrow> None | Some a \<Rightarrow> parse_digits a t)"
  by (induction s arbitrary: acc) (auto split: option.splits)

lemma parse_digits_show_nat: "parse_digits 0 (show_nat n) = Some n"
proof (induction n rule: show_nat.induct)
  case (1 n)
  show ?case
  proof (cases "n < 10")
    case True
    then show ?thesis by (simp add: show_nat.simps [of n] digit_val_digit_char)
  next
    case False
    then have "parse_digits 0 (show_nat (n div 10)) = Some (n div 10)" using 1 by simp
    then show ?thesis using False
      by (simp add: show_nat.simps [of n] parse_digits_append digit_val_digit_char)
  qed
qed

lemma show_nat_not_empty: "show_nat n \<noteq> []"
  by (simp add: show_nat.simps [of n])

lemma show_nat_no_dot: "CHR ''.'' \<notin> set (show_nat n)"
proof (induction n rule: show_nat.induct)
  case (1 n)
  show ?case
  proof (cases "n < 10")
    case True
    then show ?thesis using digit_char_not_dot [of n] by (auto simp add: show_nat.simps [of n])
  next
    case False
    then show ?thesis using 1 digit_char_not_dot [of "n mod 10"]
      by (auto simp add: show_nat.simps [of n])
  qed
qed

lemma parse_decimal_hundredths: "parse_decimal (hundredths h) = Some (of_nat h / 100)"
proof -
  let ?P = "\<lambda>c. c \<noteq> CHR ''.''"
  let ?f = "[digit_char (h mod 100 div 10), digit_char (h mod 10)]"
  have all: "\<forall>c\<in>set (show_nat (h div 100)). ?P c" using show_nat_no_dot [of "h div 100"] by auto
  have tw: "takeWhile ?P (hundredths h) = show_nat (h div 100)"
    using all by (simp add: hundredths_def takeWhile_append2)
  have dw: "dropWhile ?P (hundredths h) = CHR ''.'' # ?f"
    using all by (simp add: hundredths_def)
  have i: "parse_nat (show_nat (h div 100)) = Some (h div 100)"
    by (simp add: parse_nat_def show_nat_not_empty parse_digits_show_nat)
  have f: "parse_nat ?f = Some (10 * (h mod 100 div 10) + h mod 10)"
    by (simp add: parse_nat_def digit_val_digit_char)
  have "h mod 100 mod 10 = h mod 10" by (simp add: mod_mod_cancel)
  then have "10 * (h mod 100 div 10) + h mod 10 = h mod 100"
    using mult_div_mod_eq [of 10 "h mod 100"] by simp
  then have "100 * (h div 100) + (10 * (h mod 100 div 10) + h mod 10) = h" by simp
  then have "(of_nat (100 * (h div 100) + (10 * (h mod 100 div 10) + h mod 10)) :: rat) = of_nat h"
    by (simp only:)
  then have v: "(of_nat (h div 100) :: rat) + of_nat (10 * (h mod 100 div 10) + h mod 10) / 100
      = of_nat h / 100" by (simp add: field_simps)
  show ?thesis using v by (simp add: parse_decimal_def tw dw i f)
qed

lemma parse_size_no_unit:
  assumes "num \<noteq> []" and "digit_val (last num) = Some d"
  shows "parse_size (num @ ''B'') = map_option (\<lambda>v. (v, 0)) (parse_decimal num)"
proof -
  obtain xs x where n: "num = xs @ [x]" using assms(1) by (metis append_butlast_last_id)
  have "digit_val x = Some d" using assms(2) by (simp add: n)
  then show ?thesis by (simp add: parse_size_def n)
qed

lemma parse_size_unit:
  assumes "digit_val u = None" and "index_of [u] size_units = Some k"
  shows "parse_size (num @ [u] @ ''B'') = map_option (\<lambda>v. (v, k)) (parse_decimal num)"
  by (simp add: parse_size_def assms)

lemma hundredths_last: "hundredths h \<noteq> [] \<and> last (hundredths h) = digit_char (h mod 10)"
  by (simp add: hundredths_def)

lemma parse_size_hundredths:
  assumes "k < 6"
  shows "parse_size (hundredths h @ size_units ! k @ ''B'') = Some (of_nat h / 100, k)"
proof -
  from assms have "k = 0 \<or> k = 1 \<or> k = 2 \<or> k = 3 \<or> k = 4 \<or> k = 5" by arith
  then show ?thesis
  proof (elim disjE)
    assume k: "k = 0"
    have "digit_val (last (hundredths h)) = Some (h mod 10)"
      by (simp add: hundredths_last digit_val_digit_char)
    then have "parse_size (hundredths h @ ''B'') = Some (of_nat h / 100, 0)"
      using hundredths_last [of h] by (simp add: parse_size_no_unit parse_decimal_hundredths)
    then show ?thesis by (simp add: k size_units_def)
  next
    assume k: "k = 1"
    have "parse_size (hundredths h @ [CHR ''K''] @ ''B'') = Some (of_nat h / 100, 1)"
      by (subst parse_size_unit [where k = 1])
        (simp_all add: digit_val_def size_units_def parse_decimal_hundredths)
    then show ?thesis by (simp add: k size_units_def)
  next
    assume k: "k = 2"
    have "parse_size (hundredths h @ [CHR ''M''] @ ''B'') = Some (of_nat h / 100, 2)"
      by (subst parse_size_unit [where k = 2])
        (simp_all add: digit_val_def size_units_def parse_decimal_hundredths)
    then show ?thesis by (simp add: k size_units_def)
  next
    assume k: "k = 3"
    have "parse_size (hundredths h @ [CHR ''G''] @ ''B'') = Some (of_nat h / 100, 3)"
      by (subst parse_size_unit [where k = 3])
        (simp_all add: digit_val_def size_units_def parse_decimal_hundredths)
    then show ?thesis by (simp add: k size_units_def)
  next
    assume k: "k = 4"
    have "parse_size (hundredths h @ [CHR ''T''] @ ''B'') = Some (of_nat h / 100, 4)"
      by (subst parse_size_unit [where k = 4])
        (simp_all add: digit_val_def size_units_def parse_decimal_hundredths)
    then show ?thesis by (simp add: k size_units_def)
  next
    assume k: "k = 5"
    have "parse_size (hundredths h @ [CHR ''P''] @ ''B'') = Some (of_nat h / 100, 5)"
      by (subst parse_size_unit [where k = 5])
        (simp_all add: digit_val_def size_units_def parse_decimal_hundredths)
    then show ?thesis by (simp add: k size_units_def)
  qed
qed

lemma fmt_2f_hundredths: "0 \<le> v \<Longrightarrow> fmt_2f v = hundredths (nat (round_half_even (v * 100)))"
  by (simp add: fmt_2f_def)

lemma reparse_error:
  assumes "k < 6" and "0 \<le> v"
  shows "\<exists>w. parse_size (fmt_2f v @ size_units ! k @ ''B'') = Some (w, k) \<and> \<bar>w - v\<bar> \<le> 1 / 200"
proof -
  define h where "h = nat (round_half_even (v * 100))"
  have "of_int 0 \<le> v * 100" using assms(2) by simp
  then have "0 \<le> round_half_even (v * 100)" by (rule rhe_ge)
  then have hh: "(of_nat h :: rat) = of_int (round_half_even (v * 100))" by (simp add: h_def)
  have "\<bar>of_int (round_half_even (v * 100)) - v * 100\<bar> \<le> 1 / 2" by (rule rhe_err)
  then have "\<bar>of_nat h - v * 100\<bar> \<le> 1 / 2" by (simp only: hh)
  then have "\<bar>of_nat h / 100 - v\<bar> \<le> 1 / 200" by (simp add: abs_le_iff field_simps)
  moreover have "parse_size (fmt_2f v @ size_units ! k @ ''B'') = Some (of_nat h / 100, k)"
    using assms by (simp add: fmt_2f_hundredths h_def [symmetric] parse_size_hundredths)
  ultimately show ?thesis by blast
qed

lemma get_size_formats:
  assumes "0 \<le> b" and "b < 1024 ^ 6 - 64"
  shows "\<exists>s. get_size b = Inr (Some s)"
proof (cases "b < 1024")
  case True
  then show ?thesis using assms(1) by (simp add: get_size_small)
next
  case False
  then have b: "1024 \<le> b" by simp
  define x where "x = round_double (of_int b / 1024)"
  have x1: "1 \<le> x" and x2: "x < 1024 ^ 5"
    unfolding x_def using rd_int_div_bounds [OF b assms(2)] by auto
  from x2 have "x < 1024 ^ Suc 4" by simp
  then obtain j where j: "j \<le> 4" "j = 0 \<or> 1024 ^ j \<le> x" "x < 1024 ^ Suc j"
    using unit_exists [of x 4] by blast
  have "\<bar>x\<bar> < 2 ^ 1024" using x1 x2 by simp
  then have "get_size b = Inr (Some (fmt_2f (x / 1024 ^ j) @ size_units ! Suc j @ ''B''))"
    unfolding x_def using j b by (intro get_size_value) (simp_all add: x_def)
  then show ?thesis by blast
qed

text \<open>
  Claim C1, as amended: for every byte count \<open>b\<close> with \<open>0 \<le> b < 1024^6 - 64\<close>,
  \<open>get_size(b)\<close> returns a string \<open>"<value><unit>B"\<close> whose value is rendered with two
  decimals and whose unit is the \<open>k\<close>-th of the suffixes (none), \<open>K\<close>, \<open>M\<close>, \<open>G\<close>, \<open>T\<close>,
  \<open>P\<close>; reading the string back gives the number \<open>w\<close> and the index \<open>k\<close>, and
  \<open>w * 1024^k\<close> is within half a unit of the second decimal, \<open>1024^k / 200\<close>, of \<open>b\<close>,
  plus at most 64 bytes when \<open>b \<ge> 2^53\<close>, where the first division rounds to double
  precision.
\<close>

theorem get_size_reconstructs:
  assumes "0 \<le> b" and "b < 1024 ^ 6 - 64"
  shows "\<exists>v k w. k < 6 \<and> 0 \<le> v
           \<and> get_size b = Inr (Some (fmt_2f v @ size_units ! k @ ''B''))
           \<and> parse_size (fmt_2f v @ size_units ! k @ ''B'') = Some (w, k)
           \<and> \<bar>w * 1024 ^ k - of_int b\<bar> \<le> 1024 ^ k / 200 + (if b < 2 ^ 53 then 0 else 64)"
proof (cases "b < 1024")
  case True
  have g: "get_size b = Inr (Some (fmt_2f (of_int b) @ size_units ! 0 @ ''B''))"
    using assms(1) True by (simp add: get_size_small size_units_def)
  have v: "(0::rat) \<le> of_int b" using assms(1) by simp
  obtain w where w: "parse_size (fmt_2f (of_int b) @ size_units ! 0 @ ''B'') = Some (w, 0)"
    "\<bar>w - of_int b\<bar> \<le> 1 / 200" using reparse_error [OF _ v, of 0] by auto
  have t: "\<bar>w * 1024 ^ 0 - of_int b\<bar> \<le> 1024 ^ 0 / 200 + (if b < 2 ^ 53 then 0 else 64)"
    using w(2) by simp
  have k: "(0::nat) < 6" by simp
  show ?thesis
    by (rule exI [of _ "of_int b"], rule exI [of _ 0], rule exI [of _ w])
      (intro conjI k v g w(1) t)
next
  case False
  then have b: "1024 \<le> b" by simp
  define x where "x = round_double (of_int b / 1024)"
  have x1: "1 \<le> x" and x2: "x < 1024 ^ 5" and xe: "\<bar>x * 1024 - of_int b\<bar> \<le> 64"
    unfolding x_def using rd_int_div_bounds [OF b assms(2)] by auto
  have xe0: "x * 1024 = of_int b" if "b < 2 ^ 53"
  proof -
    have "\<bar>b\<bar> < 2 ^ 53" using that b by simp
    then have "x = of_int b / 1024" unfolding x_def by (rule rd_int_div_exact)
    then show ?thesis by simp
  qed
  have err: "\<bar>x * 1024 - of_int b\<bar> \<le> (if b < 2 ^ 53 then 0 else 64)"
    using xe xe0 by simp
  from x2 have "x < 1024 ^ Suc 4" by simp
  then obtain j where j: "j \<le> 4" "j = 0 \<or> 1024 ^ j \<le> x" "x < 1024 ^ Suc j"
    using unit_exists [of x 4] by blast
  define v where "v = x / 1024 ^ j"
  have v0: "0 \<le> v" using x1 by (simp add: v_def)
  have "\<bar>x\<bar> < 2 ^ 1024" using x1 x2 by simp
  then have g: "get_size b = Inr (Some (fmt_2f v @ size_units ! Suc j @ ''B''))"
    unfolding v_def x_def using j b by (intro get_size_value) (simp_all add: x_def)
  obtain w where w: "parse_size (fmt_2f v @ size_units ! Suc j @ ''B'') = Some (w, Suc j)"
    "\<bar>w - v\<bar> \<le> 1 / 200" using reparse_error [OF _ v0, of "Suc j"] j(1) by auto
  define P :: rat where "P = 1024 ^ Suc j"
  have P: "0 < P" by (simp add: P_def)
  have vx: "v * P = x * 1024" by (simp add: v_def P_def)
  have "\<bar>w - v\<bar> * P \<le> 1 / 200 * P" using w(2) P by (intro mult_right_mono) simp_all
  moreover have "\<bar>w - v\<bar> * P = \<bar>(w - v) * P\<bar>" using P by (simp add: abs_mult)
  moreover have "(w - v) * P = w * P - x * 1024" using vx by (simp add: left_diff_distrib)
  ultimately have "\<bar>w * P - x * 1024\<bar> \<le> P / 200" by simp
  then have "\<bar>w * P - of_int b\<bar> \<le> P / 200 + (if b < 2 ^ 53 then 0 else 64)"
    using err by linarith
  then have t: "\<bar>w * 1024 ^ Suc j - of_int b\<bar>
      \<le> 1024 ^ Suc j / 200 + (if b < 2 ^ 53 then 0 else 64)"
    unfolding P_def .
  have k: "Suc j < 6" using j(1) by simp
  show ?thesis
    by (rule exI [of _ v], rule exI [of _ "Suc j"], rule exI [of _ w])
      (intro conjI k v0 g w(1) t)
qed

theorem get_size_reconstructs_witness:
  "\<exists>v k w. k < 6 \<and> 0 \<le> v
           \<and> get_size 1536 = Inr (Some (fmt_2f v @ size_units ! k @ ''B''))
           \<and> parse_size (fmt_2f v @ size_units ! k @ ''B'') = Some (w, k)
           \<and> \<bar>w * 1024 ^ k - 1536\<bar> \<le> 1024 ^ k / 200"
  using get_size_reconstructs [of 1536] by simp

text \<open>
  The 64 bytes are needed from \<open>2^53\<close> on: at \<open>b = 9024087753343631\<close> the first division
  rounds \<open>b / 1024\<close> down across a tie of the second decimal, and the value read back from
  \<open>"8.02PB"\<close> is farther than half a unit of the second decimal from \<open>b\<close>.
\<close>

lemma get_size_half_unit_exceeded:
  "get_size 9024087753343631 = Inr (Some ''8.02PB'')
   \<and> parse_size ''8.02PB'' = Some (401 / 50, 5)
   \<and> (1024::rat) ^ 5 / 200 < \<bar>401 / 50 * 1024 ^ 5 - 9024087753343631\<bar>"
proof -
  have "get_size 9024087753343631 = Inr (Some ''8.02PB'')" by code_simp
  moreover have "parse_size ''8.02PB'' = Some (401 / 50, 5)" by code_simp
  moreover have "(1024::rat) ^ 5 / 200 < \<bar>401 / 50 * 1024 ^ 5 - 9024087753343631\<bar>" by simp
  ultimately show ?thesis by (intro conjI)
qed

section \<open>The CPU inspector\<close>

lemma update_fresh: "k \<notin> set (map fst d) \<Longrightarrow> AList.update k v d = d @ [(k, v)]"
  by (induction d) auto

lemma map_of_append_fresh: "k \<in> set (map fst d) \<Longrightarrow> map_of (d @ e) k = map_of d k"
  by (induction d) auto

lemma show_nat_inj:
  assumes "show_nat i = show_nat j"
  shows "i = j"
proof -
  have "Some i = parse_digits 0 (show_nat i)" by (simp only: parse_digits_show_nat)
  also have "\<dots> = parse_digits 0 (show_nat j)" by (simp only: assms)
  also have "\<dots> = Some j" by (simp only: parse_digits_show_nat)
  finally show ?thesis by simp
qed

lemma core_key_inj: "core_key i = core_key j \<Longrightarrow> i = j"
  by (simp add: core_key_def show_nat_inj)

lemma core_usage_loop_append:
  assumes "\<forall>i\<in>set (map fst ips). core_key i \<notin> set (map fst d)" and "distinct (map fst ips)"
  shows "core_usage_loop fstr ips d =
    d @ map (\<lambda>(i, p). (core_key i, VStr (fstr p @ ''%''))) ips"
  using assms
proof (induction ips arbitrary: d)
  case Nil
  then show ?case by simp
next
  case (Cons ip ips)
  obtain i p where ip: "ip = (i, p)" by (cases ip)
  let ?d = "d @ [(core_key i, VStr (fstr p @ ''%''))]"
  have fresh: "core_key i \<notin> set (map fst d)" using Cons.prems(1) ip by simp
  have "\<forall>j\<in>set (map fst ips). core_key j \<notin> set (map fst ?d)"
    using Cons.prems ip by (auto dest: core_key_inj)
  moreover have "distinct (map fst ips)" using Cons.prems(2) by simp
  ultimately have "core_usage_loop fstr ips ?d =
      ?d @ map (\<lambda>(i, p). (core_key i, VStr (fstr p @ ''%''))) ips" by (rule Cons.IH)
  then show ?case using fresh by (simp add: ip update_fresh)
qed

lemma cpu_info_init_keys:
  "map fst (cpu_info_init fstr ps) =
     [''Physical Cores'', ''Total Cores'', ''Max Frequency'', ''Current Frequency'', ''CPU Usage'']"
  by (simp add: cpu_info_init_def)

lemma core_key_not_init: "core_key i \<notin> set (map fst (cpu_info_init fstr ps))"
  unfolding cpu_info_init_keys by (simp add: core_key_def)

lemma get_cpu_info_eq:
  "get_cpu_info fstr ps =
     cpu_info_init fstr ps @
     map (\<lambda>(i, p). (core_key i, VStr (fstr p @ ''%'')))
       (enumerate 0 (cpu_percent_percpu ps (Some 1)))"
  unfolding get_cpu_info_def
proof (rule core_usage_loop_append)
  show "\<forall>i\<in>set (map fst (enumerate 0 (cpu_percent_percpu ps (Some 1)))).
      core_key i \<notin> set (map fst (cpu_info_init fstr ps))"
    using core_key_not_init by (rule ballI)
  show "distinct (map fst (enumerate 0 (cpu_percent_percpu ps (Some 1))))"
    by (simp only: map_fst_enumerate distinct_upt)
qed

lemma get_cpu_info_init_lookup:
  assumes "k \<in> set (map fst (cpu_info_init fstr ps))"
  shows "map_of (get_cpu_info fstr ps) k = map_of (cpu_info_init fstr ps) k"
  unfolding get_cpu_info_eq using assms by (rule map_of_append_fresh)

lemma cpu_usage_without_interval:
  "map_of (get_cpu_info fstr ps) ''CPU Usage'' = Some (VStr (fstr (cpu_percent ps None) @ ''%''))"
proof -
  have "''CPU Usage'' \<in> set (map fst (cpu_info_init fstr ps))"
    unfolding cpu_info_init_keys by simp
  then have "map_of (get_cpu_info fstr ps) ''CPU Usage''
      = map_of (cpu_info_init fstr ps) ''CPU Usage''" by (rule get_cpu_info_init_lookup)
  then show ?thesis by (simp add: cpu_info_init_def)
qed

text \<open>
  Claim C4 says that the aggregate utilisation and the per-core utilisations are all
  sampled over the same interval of one second. The code passes \<open>interval=1\<close> to the
  per-core call only: the aggregate is what \<open>psutil.cpu_percent()\<close> answers without an
  interval. On the example host, whose first call without an interval answers \<open>0.0\<close>
  while a one-second sample gives \<open>25.0\<close>, the report says \<open>0.0%\<close>.
\<close>

theorem cpu_usage_first_call:
  "map_of (get_cpu_info tenths demo_psutil) ''CPU Usage'' = Some (VStr ''0.0%'')
   \<and> cpu_percent demo_psutil (Some 1) = 25"
proof -
  have "tenths 0 = ''0.0''"
    by (simp add: tenths_def round_half_even_def digit_char_def show_nat.simps)
  moreover have "cpu_percent demo_psutil None = 0" "cpu_percent demo_psutil (Some 1) = 25"
    by (simp_all add: demo_psutil_def)
  ultimately show ?thesis by (simp add: cpu_usage_without_interval)
qed

lemma cpu_per_core:
  "take 5 (get_cpu_info fstr ps) = cpu_info_init fstr ps"
  "drop 5 (get_cpu_info fstr ps) =
     map (\<lambda>(i, p). (core_key i, VStr (fstr p @ ''%'')))
       (enumerate 0 (cpu_percent_percpu ps (Some 1)))"
proof -
  have "length (cpu_info_init fstr ps) = 5" by (simp add: cpu_info_init_def)
  then show "take 5 (get_cpu_info fstr ps) = cpu_info_init fstr ps"
    and "drop 5 (get_cpu_info fstr ps) =
     map (\<lambda>(i, p). (core_key i, VStr (fstr p @ ''%'')))
       (enumerate 0 (cpu_percent_percpu ps (Some 1)))"
    unfolding get_cpu_info_eq by simp_all
qed

text \<open>
  Claim C7: when the provider reports one percentage in \<open>[0, 100]\<close> per logical core,
  the entries after the five fixed ones are the per-core entries, one per logical core
  (the count reported under \<open>Total Cores\<close>), the \<open>i\<close>-th with the key
  \<open>f"Core {i} Usage"\<close> and the \<open>i\<close>-th percentage of the provider, which lies in
  \<open>[0, 100]\<close>.
\<close>

theorem cpu_per_core_entries:
  assumes "cpu_count ps True = Some (int (length (cpu_percent_percpu ps (Some 1))))"
    and "\<forall>p\<in>set (cpu_percent_percpu ps (Some 1)). 0 \<le> p \<and> p \<le> 100"
  shows "map fst (take 5 (get_cpu_info fstr ps)) =
      [''Physical Cores'', ''Total Cores'', ''Max Frequency'', ''Current Frequency'', ''CPU Usage'']
    \<and> map_of (get_cpu_info fstr ps) ''Total Cores''
        = Some (VInt (int (length (drop 5 (get_cpu_info fstr ps)))))
    \<and> (\<forall>i<length (drop 5 (get_cpu_info fstr ps)). \<exists>p.
          drop 5 (get_cpu_info fstr ps) ! i = (core_key i, VStr (fstr p @ ''%''))
          \<and> p = cpu_percent_percpu ps (Some 1) ! i \<and> 0 \<le> p \<and> p \<le> 100)"
proof -
  have 1: "map fst (take 5 (get_cpu_info fstr ps)) =
      [''Physical Cores'', ''Total Cores'', ''Max Frequency'', ''Current Frequency'', ''CPU Usage'']"
    unfolding cpu_per_core(1) by (rule cpu_info_init_keys)
  have "''Total Cores'' \<in> set (map fst (cpu_info_init fstr ps))"
    unfolding cpu_info_init_keys by simp
  then have "map_of (get_cpu_info fstr ps) ''Total Cores''
      = map_of (cpu_info_init fstr ps) ''Total Cores''" by (rule get_cpu_info_init_lookup)
  then have 2: "map_of (get_cpu_info fstr ps) ''Total Cores''
        = Some (VInt (int (length (drop 5 (get_cpu_info fstr ps)))))"
    unfolding cpu_per_core(2) using assms(1) by (simp add: cpu_info_init_def)
  have 3: "\<forall>i<length (drop 5 (get_cpu_info fstr ps)). \<exists>p.
          drop 5 (get_cpu_info fstr ps) ! i = (core_key i, VStr (fstr p @ ''%''))
          \<and> p = cpu_percent_percpu ps (Some 1) ! i \<and> 0 \<le> p \<and> p \<le> 100"
    unfolding cpu_per_core(2) using assms(2) by (simp add: nth_enumerate_eq)
  show ?thesis using 1 2 3 by (intro conjI)
qed

theorem cpu_per_core_entries_witness:
  "map_of (get_cpu_info tenths demo_psutil) ''Total Cores'' = Some (VInt 2)
   \<and> length (drop 5 (get_cpu_info tenths demo_psutil)) = 2
   \<and> drop 5 (get_cpu_info tenths demo_psutil) ! 1 = (core_key 1, VStr (tenths 20 @ ''%''))"
proof -
  let ?cores = "drop 5 (get_cpu_info tenths demo_psutil)"
  have h1: "cpu_count demo_psutil True
      = Some (int (length (cpu_percent_percpu demo_psutil (Some 1))))"
    by (simp add: demo_psutil_def)
  have h2: "\<forall>p\<in>set (cpu_percent_percpu demo_psutil (Some 1)). 0 \<le> p \<and> p \<le> 100"
    by (simp add: demo_psutil_def)
  have l: "length ?cores = 2"
    unfolding cpu_per_core(2) by (simp add: demo_psutil_def)
  have p: "cpu_percent_percpu demo_psutil (Some 1) ! 1 = 20" by (simp add: demo_psutil_def)
  note t = cpu_per_core_entries [OF h1 h2, of tenths]
  from t have a: "map_of (get_cpu_info tenths demo_psutil) ''Total Cores''
      = Some (VInt (int (length ?cores)))" by (rule conjunct1 [OF conjunct2])
  from t have b: "\<forall>i<length ?cores. \<exists>p. ?cores ! i = (core_key i, VStr (tenths p @ ''%''))
      \<and> p = cpu_percent_percpu demo_psutil (Some 1) ! i \<and> 0 \<le> p \<and> p \<le> 100"
    by (rule conjunct2 [OF conjunct2])
  have "1 < length ?cores" unfolding l by simp
  with b obtain q where "?cores ! 1 = (core_key 1, VStr (tenths q @ ''%''))"
    "q = cpu_percent_percpu demo_psutil (Some 1) ! 1" by blast
  then have c: "?cores ! 1 = (core_key 1, VStr (tenths 20 @ ''%''))" unfolding p by simp
  have a': "map_of (get_cpu_info tenths demo_psutil) ''Total Cores'' = Some (VInt 2)"
    using a unfolding l by simp
  show ?thesis using a' l c by (intro conjI)
qed

section \<open>The memory inspector\<close>

lemma get_size_returns:
  assumes "0 \<le> b" and "b < 2 ^ 1034 - 2 ^ 980"
  shows "\<exists>r. get_size b = Inr r"
proof (cases "b < 1024 ^ 6 - 64")
  case True
  then show ?thesis using get_size_formats [OF assms(1)] by blast
next
  case False
  then have "1024 ^ 6 - 64 \<le> b" by simp
  then show ?thesis using get_size_none [OF _ assms(2)] by blast
qed

lemma size_val_returns:
  assumes "0 \<le> b" and "b < 2 ^ 64"
  shows "\<exists>v. size_val b = Inr v"
proof -
  have "b < 2 ^ 1034 - 2 ^ 980" using assms(2) by simp
  then obtain r where "get_size b = Inr r" using get_size_returns [OF assms(1)] by blast
  then show ?thesis by (simp add: size_val_def and_then_def)
qed

lemma and_then_Inr: "and_then (Inr a) f = f a"
  by (simp add: and_then_def)

lemma and_then_Inl: "and_then (Inl e) f = Inl e"
  by (simp add: and_then_def)

lemma get_memory_info_returns:
  assumes "0 \<le> vm_total (virtual_memory ps)" "vm_total (virtual_memory ps) < 2 ^ 64"
    "0 \<le> vm_available (virtual_memory ps)" "vm_available (virtual_memory ps) < 2 ^ 64"
    "0 \<le> vm_used (virtual_memory ps)" "vm_used (virtual_memory ps) < 2 ^ 64"
    "0 \<le> swap_total (swap_memory ps)" "swap_total (swap_memory ps) < 2 ^ 64"
    "0 \<le> swap_free (swap_memory ps)" "swap_free (swap_memory ps) < 2 ^ 64"
    "0 \<le> swap_used (swap_memory ps)" "swap_used (swap_memory ps) < 2 ^ 64"
  shows "\<exists>d. get_memory_info fstr ps = Inr d"
proof -
  obtain a where a: "size_val (vm_total (virtual_memory ps)) = Inr a"
    using size_val_returns assms(1,2) by blast
  obtain b where b: "size_val (vm_available (virtual_memory ps)) = Inr b"
    using size_val_returns assms(3,4) by blast
  obtain c where c: "size_val (vm_used (virtual_memory ps)) = Inr c"
    using size_val_returns assms(5,6) by blast
  obtain d where d: "size_val (swap_total (swap_memory ps)) = Inr d"
    using size_val_returns assms(7,8) by blast
  obtain e where e: "size_val (swap_free (swap_memory ps)) = Inr e"
    using size_val_returns assms(9,10) by blast
  obtain f where f: "size_val (swap_used (swap_memory ps)) = Inr f"
    using size_val_returns assms(11,12) by blast
  show ?thesis by (simp add: get_memory_info_def Let_def a b c d e f and_then_Inr)
qed

lemma get_memory_info_percent:
  assumes "get_memory_info fstr ps = Inr d"
  shows "map_of d ''Memory Usage'' = Some (VStr (fstr (vm_percent (virtual_memory ps)) @ ''%''))"
    and "map_of d ''Swap Usage'' = Some (VStr (fstr (swap_percent (swap_memory ps)) @ ''%''))"
  using assms
  by (auto simp add: get_memory_info_def Let_def and_then_def split: sum.splits)

text \<open>
  Claim C8: whenever the memory inspector returns, its \<open>Memory Usage\<close> and
  \<open>Swap Usage\<close> entries are the provider's \<open>percent\<close> fields, formatted; no size field
  enters them. It returns whenever the six byte counts are below \<open>2^64\<close>.
\<close>

theorem memory_percent_from_provider:
  "(\<forall>d. get_memory_info fstr ps = Inr d \<longrightarrow>
      map_of d ''Memory Usage'' = Some (VStr (fstr (vm_percent (virtual_memory ps)) @ ''%''))
      \<and> map_of d ''Swap Usage'' = Some (VStr (fstr (swap_percent (swap_memory ps)) @ ''%'')))
   \<and> ((\<forall>b\<in>{vm_total (virtual_memory ps), vm_available (virtual_memory ps),
             vm_used (virtual_memory ps), swap_total (swap_memory ps),
             swap_free (swap_memory ps), swap_used (swap_memory ps)}. 0 \<le> b \<and> b < 2 ^ 64)
        \<longrightarrow> (\<exists>d. get_memory_info fstr ps = Inr d))"
  using get_memory_info_percent [of fstr ps] get_memory_info_returns [of ps fstr]
  by simp

theorem memory_percent_from_provider_witness:
  "\<exists>d. get_memory_info tenths demo_psutil = Inr d
     \<and> map_of d ''Memory Usage'' = Some (VStr (tenths 50 @ ''%''))
     \<and> map_of d ''Swap Usage'' = Some (VStr (tenths 0 @ ''%''))"
proof -
  have v: "virtual_memory demo_psutil =
      \<lparr>vm_total = 8589934592, vm_available = 4294967296, vm_used = 4294967296, vm_percent = 50\<rparr>"
    and s: "swap_memory demo_psutil =
      \<lparr>swap_total = 0, swap_used = 0, swap_free = 0, swap_percent = 0\<rparr>"
    by (simp_all add: demo_psutil_def)
  note t = memory_percent_from_provider [of tenths demo_psutil]
  have "\<forall>b\<in>{vm_total (virtual_memory demo_psutil), vm_available (virtual_memory demo_psutil),
             vm_used (virtual_memory demo_psutil), swap_total (swap_memory demo_psutil),
             swap_free (swap_memory demo_psutil), swap_used (swap_memory demo_psutil)}.
          0 \<le> b \<and> b < 2 ^ 64" by (simp add: v s)
  then obtain d where d: "get_memory_info tenths demo_psutil = Inr d" using t by blast
  then have "map_of d ''Memory Usage''
        = Some (VStr (tenths (vm_percent (virtual_memory demo_psutil)) @ ''%''))
      \<and> map_of d ''Swap Usage''
        = Some (VStr (tenths (swap_percent (swap_memory demo_psutil)) @ ''%''))"
    using t by blast
  then show ?thesis using d by (simp add: v s)
qed

section \<open>The disk inspector\<close>

lemma disk_entry_unreadable:
  "\<not> readable ps part \<Longrightarrow> isl (disk_entry fstr ps part)"
  by (cases "disk_usage ps (mountpoint part)") (simp_all add: readable_def disk_entry_def and_then_def)

lemma disk_entry_readable:
  assumes "disk_usage ps (mountpoint part) = Inr u"
    and "byte_count (du_total u)" "byte_count (du_used u)" "byte_count (du_free u)"
  shows "\<exists>entry. disk_entry fstr ps part = Inr entry
      \<and> map_of entry ''Usage'' = Some (VStr (fstr (du_percent u) @ ''%''))"
proof -
  obtain a where a: "size_val (du_total u) = Inr a"
    using size_val_returns assms(2) unfolding byte_count_def by blast
  obtain b where b: "size_val (du_used u) = Inr b"
    using size_val_returns assms(3) unfolding byte_count_def by blast
  obtain c where c: "size_val (du_free u) = Inr c"
    using size_val_returns assms(4) unfolding byte_count_def by blast
  show ?thesis by (simp add: disk_entry_def assms(1) a b c and_then_Inr)
qed

lemma device_key_inj: "device_key p = device_key q \<Longrightarrow> device p = device q"
  by (simp add: device_key_def)

lemma map_of_append_last:
  "k \<notin> set (map fst d) \<Longrightarrow> map_of (d @ e) k = map_of e k"
  by (induction d) auto

lemma disk_loop_append:
  assumes "distinct (map device_key (filter (\<lambda>p. \<not> isl (disk_entry fstr ps p)) parts))"
    and "\<forall>p\<in>set parts. \<not> isl (disk_entry fstr ps p) \<longrightarrow> device_key p \<notin> set (map fst d)"
  shows "disk_loop fstr ps parts d =
    d @ map (\<lambda>p. (device_key p, VDict (projr (disk_entry fstr ps p))))
          (filter (\<lambda>p. \<not> isl (disk_entry fstr ps p)) parts)"
  using assms
proof (induction parts arbitrary: d)
  case Nil
  then show ?case by simp
next
  case (Cons p parts)
  show ?case
  proof (cases "disk_entry fstr ps p")
    case (Inl e)
    then show ?thesis using Cons by simp
  next
    case (Inr entry)
    let ?d = "d @ [(device_key p, VDict entry)]"
    have fresh: "device_key p \<notin> set (map fst d)" using Cons.prems(2) Inr by simp
    have 1: "distinct (map device_key (filter (\<lambda>p. \<not> isl (disk_entry fstr ps p)) parts))"
      using Cons.prems(1) Inr by simp
    have np: "device_key p \<notin> device_key ` {x \<in> set parts. \<not> isl (disk_entry fstr ps x)}"
      using Cons.prems(1) Inr by simp
    have 2: "\<forall>q\<in>set parts. \<not> isl (disk_entry fstr ps q) \<longrightarrow> device_key q \<notin> set (map fst ?d)"
    proof (intro ballI impI)
      fix q
      assume q: "q \<in> set parts" "\<not> isl (disk_entry fstr ps q)"
      then have "device_key q \<in> device_key ` {x \<in> set parts. \<not> isl (disk_entry fstr ps x)}"
        by blast
      then have "device_key q \<noteq> device_key p" using np by metis
      moreover have "device_key q \<notin> set (map fst d)" using Cons.prems(2) q by simp
      ultimately show "device_key q \<notin> set (map fst ?d)" by simp
    qed
    have "disk_loop fstr ps parts ?d =
        ?d @ map (\<lambda>p. (device_key p, VDict (projr (disk_entry fstr ps p))))
              (filter (\<lambda>p. \<not> isl (disk_entry fstr ps p)) parts)"
      using 1 2 by (rule Cons.IH)
    then show ?thesis using Inr fresh by (simp add: update_fresh)
  qed
qed

lemma disk_loop_keys:
  "set (map fst (disk_loop fstr ps parts d)) =
     set (map fst d) \<union> device_key ` {p \<in> set parts. \<not> isl (disk_entry fstr ps p)}"
proof (induction parts arbitrary: d)
  case Nil
  then show ?case by simp
next
  case (Cons p parts)
  show ?case
  proof (cases "disk_entry fstr ps p")
    case (Inl e)
    then show ?thesis using Cons [of d] by auto
  next
    case (Inr entry)
    have "set (map fst (AList.update (device_key p) (VDict entry) d))
        = insert (device_key p) (set (map fst d))"
      using dom_update [of "device_key p" "VDict entry" d] by simp
    then show ?thesis using Inr Cons [of "AList.update (device_key p) (VDict entry) d"] by auto
  qed
qed

lemma disk_loop_distinct:
  "distinct (map fst d) \<Longrightarrow> distinct (map fst (disk_loop fstr ps parts d))"
proof (induction parts arbitrary: d)
  case Nil
  then show ?case by simp
next
  case (Cons p parts)
  then show ?case by (cases "disk_entry fstr ps p") (simp_all add: distinct_update)
qed

lemma get_disk_info_length:
  "length (get_disk_info fstr ps) =
     card (device_key ` {p \<in> set (disk_partitions ps). \<not> isl (disk_entry fstr ps p)})"
proof -
  have "distinct (map fst (get_disk_info fstr ps))"
    unfolding get_disk_info_def by (rule disk_loop_distinct) simp
  then have "length (map fst (get_disk_info fstr ps)) = card (set (map fst (get_disk_info fstr ps)))"
    by (simp only: distinct_card)
  then show ?thesis unfolding get_disk_info_def disk_loop_keys by simp
qed

lemma get_disk_info_readable:
  assumes "\<forall>part\<in>set (disk_partitions ps). \<forall>u. disk_usage ps (mountpoint part) = Inr u \<longrightarrow>
      byte_count (du_total u) \<and> byte_count (du_used u) \<and> byte_count (du_free u)"
    and "distinct (map device (filter (readable ps) (disk_partitions ps)))"
  shows "get_disk_info fstr ps =
      map (\<lambda>p. (device_key p, VDict (projr (disk_entry fstr ps p))))
        (filter (readable ps) (disk_partitions ps))"
    and "distinct (map device_key (filter (readable ps) (disk_partitions ps)))"
proof -
  let ?parts = "disk_partitions ps"
  have r: "(\<not> isl (disk_entry fstr ps p)) = readable ps p" if "p \<in> set ?parts" for p
  proof (cases "disk_usage ps (mountpoint p)")
    case (Inl e)
    then show ?thesis using disk_entry_unreadable [of ps p fstr] by (simp add: readable_def)
  next
    case (Inr u)
    have "byte_count (du_total u)" "byte_count (du_used u)" "byte_count (du_free u)"
      using assms(1) that Inr by blast+
    then obtain entry where "disk_entry fstr ps p = Inr entry"
      using disk_entry_readable [OF Inr, where fstr = fstr] by blast
    then show ?thesis using Inr by (simp add: readable_def)
  qed
  then have f: "filter (\<lambda>p. \<not> isl (disk_entry fstr ps p)) ?parts = filter (readable ps) ?parts"
    by (intro filter_cong) simp_all
  have "device_key = (\<lambda>s. ''Device '' @ s) \<circ> device" by (rule ext) (simp add: device_key_def)
  then have "map device_key (filter (readable ps) ?parts)
      = map (\<lambda>s. ''Device '' @ s) (map device (filter (readable ps) ?parts))" by simp
  moreover have "inj (\<lambda>s::string. ''Device '' @ s)" by (rule injI) simp
  ultimately show d: "distinct (map device_key (filter (readable ps) ?parts))"
    using assms(2) by (simp only: distinct_map) (simp add: inj_on_def)
  have "disk_loop fstr ps ?parts [] =
      [] @ map (\<lambda>p. (device_key p, VDict (projr (disk_entry fstr ps p))))
            (filter (\<lambda>p. \<not> isl (disk_entry fstr ps p)) ?parts)"
    using d unfolding f [symmetric] by (intro disk_loop_append) simp_all
  then show "get_disk_info fstr ps =
      map (\<lambda>p. (device_key p, VDict (projr (disk_entry fstr ps p))))
        (filter (readable ps) (disk_partitions ps))"
    unfolding get_disk_info_def f by simp
qed

lemma get_disk_info_readable_entries:
  assumes "\<forall>part\<in>set (disk_partitions ps). \<forall>u. disk_usage ps (mountpoint part) = Inr u \<longrightarrow>
      byte_count (du_total u) \<and> byte_count (du_used u) \<and> byte_count (du_free u)
      \<and> 0 \<le> du_percent u \<and> du_percent u \<le> 100"
    and "distinct (map device (filter (readable ps) (disk_partitions ps)))"
  shows "length (get_disk_info fstr ps) = length (filter (readable ps) (disk_partitions ps))
    \<and> map fst (get_disk_info fstr ps) = map device_key (filter (readable ps) (disk_partitions ps))
    \<and> (\<forall>part\<in>set (filter (readable ps) (disk_partitions ps)). \<exists>entry u.
          map_of (get_disk_info fstr ps) (device_key part) = Some (VDict entry)
          \<and> disk_usage ps (mountpoint part) = Inr u
          \<and> map_of entry ''Usage'' = Some (VStr (fstr (du_percent u) @ ''%''))
          \<and> 0 \<le> du_percent u \<and> du_percent u \<le> 100)"
proof -
  let ?parts = "filter (readable ps) (disk_partitions ps)"
  let ?e = "\<lambda>p. (device_key p, VDict (projr (disk_entry fstr ps p)))"
  have a: "\<forall>part\<in>set (disk_partitions ps). \<forall>u. disk_usage ps (mountpoint part) = Inr u \<longrightarrow>
      byte_count (du_total u) \<and> byte_count (du_used u) \<and> byte_count (du_free u)"
    using assms(1) by blast
  note g = get_disk_info_readable(1) [OF a assms(2), where fstr = fstr]
    get_disk_info_readable(2) [OF a assms(2)]
  have 1: "length (get_disk_info fstr ps) = length ?parts" unfolding g(1) by simp
  have 2: "map fst (get_disk_info fstr ps) = map device_key ?parts"
    unfolding g(1) by (simp add: comp_def)
  have 3: "\<forall>part\<in>set ?parts. \<exists>entry u.
          map_of (get_disk_info fstr ps) (device_key part) = Some (VDict entry)
          \<and> disk_usage ps (mountpoint part) = Inr u
          \<and> map_of entry ''Usage'' = Some (VStr (fstr (du_percent u) @ ''%''))
          \<and> 0 \<le> du_percent u \<and> du_percent u \<le> 100"
  proof
    fix part
    assume p: "part \<in> set ?parts"
    then have pp: "part \<in> set (disk_partitions ps)" and "readable ps part" by simp_all
    then obtain u where u: "disk_usage ps (mountpoint part) = Inr u"
      unfolding readable_def by (cases "disk_usage ps (mountpoint part)") simp_all
    have b: "byte_count (du_total u)" "byte_count (du_used u)" "byte_count (du_free u)"
      "0 \<le> du_percent u" "du_percent u \<le> 100" using assms(1) pp u by blast+
    obtain entry where e: "disk_entry fstr ps part = Inr entry"
      "map_of entry ''Usage'' = Some (VStr (fstr (du_percent u) @ ''%''))"
      using disk_entry_readable [OF u b(1,2,3), where fstr = fstr] by blast
    have "distinct (map fst (map ?e ?parts))" using g(2) by (simp add: comp_def)
    moreover have "(device_key part, VDict entry) \<in> set (map ?e ?parts)"
      using p e(1) by (auto simp add: image_iff intro!: bexI [of _ part])
    ultimately have "map_of (map ?e ?parts) (device_key part) = Some (VDict entry)"
      by (simp only: map_of_eq_Some_iff)
    then have "map_of (get_disk_info fstr ps) (device_key part) = Some (VDict entry)"
      unfolding g(1) .
    then show "\<exists>entry u.
          map_of (get_disk_info fstr ps) (device_key part) = Some (VDict entry)
          \<and> disk_usage ps (mountpoint part) = Inr u
          \<and> map_of entry ''Usage'' = Some (VStr (fstr (du_percent u) @ ''%''))
          \<and> 0 \<le> du_percent u \<and> du_percent u \<le> 100"
      using u e(2) b(4,5) by blast
  qed
  show ?thesis using 1 2 3 by (intro conjI)
qed

lemma retained_iff: "(\<not> isl (disk_entry fstr ps part)) = retained ps part"
  by (auto simp add: retained_def disk_entry_def and_then_def size_val_def split: sum.splits)

lemma retained_usage:
  assumes "retained ps part"
  shows "\<exists>u. disk_usage ps (mountpoint part) = Inr u
    \<and> map_of (projr (disk_entry fstr ps part)) ''Usage'' = Some (VStr (fstr (du_percent u) @ ''%''))"
  using assms
  by (auto simp add: retained_def disk_entry_def and_then_def size_val_def split: sum.splits)

lemma byte_count_formats: "byte_count b \<Longrightarrow> \<not> isl (get_size b)"
proof -
  assume "byte_count b"
  then have "0 \<le> b" "b < 2 ^ 1034 - 2 ^ 980" by (simp_all add: byte_count_def)
  then obtain r where "get_size b = Inr r" using get_size_returns by blast
  then show ?thesis by simp
qed

lemma oversize_raises: "2 ^ 1034 - 2 ^ 980 \<le> b \<Longrightarrow> isl (get_size b)"
  by (simp add: get_size_overflow)

lemma retained_byte_counts:
  assumes "disk_usage ps (mountpoint part) = Inr u"
    and "byte_count (du_total u)" "byte_count (du_used u)" "byte_count (du_free u)"
  shows "retained ps part"
  using assms by (simp add: retained_def byte_count_formats)

lemma retained_readable: "retained ps part \<Longrightarrow> readable ps part"
  by (auto simp add: retained_def readable_def split: sum.splits)

lemma disk_loop_map_of:
  "map_of (disk_loop fstr ps parts d) =
     map_of (rev (map (disk_item fstr ps) (filter (retained ps) parts)) @ d)"
proof (induction parts arbitrary: d)
  case Nil
  then show ?case by simp
next
  case (Cons p parts)
  show ?case
  proof (cases "disk_entry fstr ps p")
    case (Inl e)
    then have "\<not> retained ps p" using retained_iff [of fstr ps p] by simp
    then show ?thesis using Inl Cons [of d] by simp
  next
    case (Inr entry)
    then have r: "retained ps p" using retained_iff [of fstr ps p] by simp
    have i: "disk_item fstr ps p = (device_key p, VDict entry)" by (simp add: disk_item_def Inr)
    let ?E = "rev (map (disk_item fstr ps) (filter (retained ps) parts))"
    have "map_of (disk_loop fstr ps (p # parts) d)
        = map_of (?E @ AList.update (device_key p) (VDict entry) d)"
      using Inr Cons [of "AList.update (device_key p) (VDict entry) d"] by simp
    also have "\<dots> = map_of (AList.update (device_key p) (VDict entry) d) ++ map_of ?E"
      by (rule map_of_append)
    also have "map_of (AList.update (device_key p) (VDict entry) d)
        = map_of ((device_key p, VDict entry) # d)"
      by (simp add: update_conv')
    also have "map_of ((device_key p, VDict entry) # d) ++ map_of ?E
        = map_of (?E @ (device_key p, VDict entry) # d)"
      by (rule map_of_append [symmetric])
    finally show ?thesis using r i by simp
  qed
qed

lemma get_disk_info_last:
  assumes "disk_partitions ps = xs @ part # ys" and "retained ps part"
    and "\<forall>q\<in>set ys. retained ps q \<longrightarrow> device q \<noteq> device part"
  shows "map_of (get_disk_info fstr ps) (device_key part)
    = Some (VDict (projr (disk_entry fstr ps part)))"
proof -
  let ?it = "disk_item fstr ps"
  let ?R = "retained ps"
  have "device_key part \<notin> set (map fst (rev (map ?it (filter ?R ys))))"
  proof
    assume "device_key part \<in> set (map fst (rev (map ?it (filter ?R ys))))"
    then obtain q where q: "q \<in> set ys" "retained ps q" "device_key q = device_key part"
      by (auto simp add: disk_item_def)
    from q(3) have "device q = device part" by (rule device_key_inj)
    then show False using assms(3) q(1,2) by blast
  qed
  then have "map_of (rev (map ?it (filter ?R ys)) @ (?it part # rev (map ?it (filter ?R xs))))
      (device_key part) = map_of (?it part # rev (map ?it (filter ?R xs))) (device_key part)"
    by (rule map_of_append_last)
  also have "\<dots> = Some (VDict (projr (disk_entry fstr ps part)))" by (simp add: disk_item_def)
  finally show ?thesis
    unfolding get_disk_info_def disk_loop_map_of assms(1) using assms(2) by simp
qed

lemma get_disk_info_count:
  "length (get_disk_info fstr ps) = card (device ` {p \<in> set (disk_partitions ps). retained ps p})"
proof -
  have "device_key ` A = (\<lambda>s. ''Device '' @ s) ` device ` A" for A :: "sdiskpart set"
    by (simp add: image_image device_key_def)
  moreover have "inj_on (\<lambda>s::string. ''Device '' @ s) B" for B by (rule inj_onI) simp
  ultimately have "card (device_key ` A) = card (device ` A)" for A :: "sdiskpart set"
    by (simp add: card_image)
  then show ?thesis unfolding get_disk_info_length retained_iff .
qed

lemma get_disk_info_distinct:
  assumes "distinct (map device (filter (retained ps) (disk_partitions ps)))"
  shows "get_disk_info fstr ps = map (disk_item fstr ps) (filter (retained ps) (disk_partitions ps))"
proof -
  let ?parts = "filter (retained ps) (disk_partitions ps)"
  have "map device_key ?parts = map (\<lambda>s. ''Device '' @ s) (map device ?parts)"
    by (simp add: device_key_def)
  moreover have "inj (\<lambda>s::string. ''Device '' @ s)" by (rule injI) simp
  ultimately have d: "distinct (map device_key ?parts)"
    using assms by (simp only: distinct_map) (simp add: inj_on_def)
  have f: "(\<lambda>p. \<not> isl (disk_entry fstr ps p)) = retained ps"
    by (rule ext) (rule retained_iff)
  have "disk_loop fstr ps (disk_partitions ps) [] =
      [] @ map (\<lambda>p. (device_key p, VDict (projr (disk_entry fstr ps p))))
            (filter (\<lambda>p. \<not> isl (disk_entry fstr ps p)) (disk_partitions ps))"
    using d unfolding f [symmetric] by (intro disk_loop_append) simp_all
  then show ?thesis unfolding get_disk_info_def f disk_item_def by simp
qed

lemma retained_eq_readable:
  assumes "\<forall>part\<in>set parts. \<forall>u. disk_usage ps (mountpoint part) = Inr u \<longrightarrow>
      byte_count (du_total u) \<and> byte_count (du_used u) \<and> byte_count (du_free u)"
  shows "filter (retained ps) parts = filter (readable ps) parts"
proof (rule filter_cong [OF refl])
  fix p
  assume p: "p \<in> set parts"
  show "retained ps p = readable ps p"
  proof (cases "disk_usage ps (mountpoint p)")
    case (Inl e)
    then show ?thesis by (simp add: retained_def readable_def)
  next
    case (Inr u)
    then have "retained ps p" using assms p retained_byte_counts [OF Inr] by blast
    then show ?thesis using Inr by (simp add: readable_def)
  qed
qed

lemma demo_disk:
  "\<forall>part\<in>set (disk_partitions demo_psutil). \<forall>u.
      disk_usage demo_psutil (mountpoint part) = Inr u \<longrightarrow>
      byte_count (du_total u) \<and> byte_count (du_used u) \<and> byte_count (du_free u)
      \<and> 0 \<le> du_percent u \<and> du_percent u \<le> 100"
  "filter (readable demo_psutil) (disk_partitions demo_psutil)
     = [\<lparr>device = ''/dev/sda1'', mountpoint = ''/'', fstype = ''ext4''\<rparr>]"
  by (auto simp add: demo_psutil_def byte_count_def readable_def)

text \<open>
  Claim C5, as amended. A partition is retained when its usage read does not raise and
  \<open>get_size\<close> raises on none of its three byte counts; it never raises on a count in
  \<open>[0, 2^64)\<close> and raises from \<open>2^1034 - 2^980\<close> on. The result has exactly one entry
  per distinct device among the retained partitions, and the entry of a device is that
  of its last retained partition; the \<open>Usage\<close> of an entry is the provider's percentage
  of its partition. A partition that is not retained, an unreadable one in particular,
  leaves no entry and no error. Hence, when the byte counts are in \<open>[0, 2^64)\<close>, the
  provider's percentages in \<open>[0, 100]\<close> and the devices of the readable partitions
  pairwise distinct, the result has exactly one entry per readable partition, in
  order, each with a \<open>Usage\<close> in \<open>[0, 100]\<close>.
\<close>

theorem get_disk_info_entries:
  "length (get_disk_info fstr ps)
     = card (device ` {part \<in> set (disk_partitions ps). retained ps part})
   \<and> (\<forall>xs part ys.
         disk_partitions ps = xs @ part # ys \<and> retained ps part
         \<and> (\<forall>q\<in>set ys. retained ps q \<longrightarrow> device q \<noteq> device part) \<longrightarrow>
         map_of (get_disk_info fstr ps) (device_key part)
           = Some (VDict (projr (disk_entry fstr ps part))))
   \<and> (\<forall>part. retained ps part \<longrightarrow>
         (\<exists>u. disk_usage ps (mountpoint part) = Inr u
            \<and> map_of (projr (disk_entry fstr ps part)) ''Usage''
                = Some (VStr (fstr (du_percent u) @ ''%''))))
   \<and> (\<forall>part u. disk_usage ps (mountpoint part) = Inr u \<longrightarrow>
         (byte_count (du_total u) \<and> byte_count (du_used u) \<and> byte_count (du_free u)
            \<longrightarrow> retained ps part)
         \<and> (2 ^ 1034 - 2 ^ 980 \<le> du_total u \<or> 2 ^ 1034 - 2 ^ 980 \<le> du_used u
              \<or> 2 ^ 1034 - 2 ^ 980 \<le> du_free u \<longrightarrow> \<not> retained ps part))
   \<and> (\<forall>part. \<not> readable ps part \<longrightarrow> \<not> retained ps part)
   \<and> ((\<forall>part\<in>set (disk_partitions ps). \<forall>u. disk_usage ps (mountpoint part) = Inr u \<longrightarrow>
          byte_count (du_total u) \<and> byte_count (du_used u) \<and> byte_count (du_free u)
          \<and> 0 \<le> du_percent u \<and> du_percent u \<le> 100)
        \<and> distinct (map device (filter (readable ps) (disk_partitions ps))) \<longrightarrow>
        length (get_disk_info fstr ps) = length (filter (readable ps) (disk_partitions ps))
        \<and> map fst (get_disk_info fstr ps)
            = map device_key (filter (readable ps) (disk_partitions ps))
        \<and> (\<forall>part\<in>set (filter (readable ps) (disk_partitions ps)). \<exists>entry u.
              map_of (get_disk_info fstr ps) (device_key part) = Some (VDict entry)
              \<and> disk_usage ps (mountpoint part) = Inr u
              \<and> map_of entry ''Usage'' = Some (VStr (fstr (du_percent u) @ ''%''))
              \<and> 0 \<le> du_percent u \<and> du_percent u \<le> 100))"
proof -
  have 1: "length (get_disk_info fstr ps)
     = card (device ` {part \<in> set (disk_partitions ps). retained ps part})"
    by (rule get_disk_info_count)
  have 2: "\<forall>xs part ys.
         disk_partitions ps = xs @ part # ys \<and> retained ps part
         \<and> (\<forall>q\<in>set ys. retained ps q \<longrightarrow> device q \<noteq> device part) \<longrightarrow>
         map_of (get_disk_info fstr ps) (device_key part)
           = Some (VDict (projr (disk_entry fstr ps part)))"
    using get_disk_info_last [of ps _ _ _ fstr] by blast
  have 3: "\<forall>part. retained ps part \<longrightarrow>
         (\<exists>u. disk_usage ps (mountpoint part) = Inr u
            \<and> map_of (projr (disk_entry fstr ps part)) ''Usage''
                = Some (VStr (fstr (du_percent u) @ ''%'')))"
    using retained_usage [of ps _ fstr] by blast
  have 4: "\<forall>part u. disk_usage ps (mountpoint part) = Inr u \<longrightarrow>
         (byte_count (du_total u) \<and> byte_count (du_used u) \<and> byte_count (du_free u)
            \<longrightarrow> retained ps part)
         \<and> (2 ^ 1034 - 2 ^ 980 \<le> du_total u \<or> 2 ^ 1034 - 2 ^ 980 \<le> du_used u
              \<or> 2 ^ 1034 - 2 ^ 980 \<le> du_free u \<longrightarrow> \<not> retained ps part)"
  proof (intro allI impI conjI)
    fix part :: sdiskpart and u
    assume u: "disk_usage ps (mountpoint part) = Inr u"
      and "byte_count (du_total u) \<and> byte_count (du_used u) \<and> byte_count (du_free u)"
    then show "retained ps part" using retained_byte_counts [OF u] by blast
  next
    fix part :: sdiskpart and u
    assume u: "disk_usage ps (mountpoint part) = Inr u"
      and "2 ^ 1034 - 2 ^ 980 \<le> du_total u \<or> 2 ^ 1034 - 2 ^ 980 \<le> du_used u
              \<or> 2 ^ 1034 - 2 ^ 980 \<le> du_free u"
    then have "isl (get_size (du_total u)) \<or> isl (get_size (du_used u))
        \<or> isl (get_size (du_free u))" using oversize_raises by blast
    then show "\<not> retained ps part" by (auto simp add: retained_def u)
  qed
  have 5: "\<forall>part. \<not> readable ps part \<longrightarrow> \<not> retained ps part"
    using retained_readable by blast
  have 6: "(\<forall>part\<in>set (disk_partitions ps). \<forall>u. disk_usage ps (mountpoint part) = Inr u \<longrightarrow>
          byte_count (du_total u) \<and> byte_count (du_used u) \<and> byte_count (du_free u)
          \<and> 0 \<le> du_percent u \<and> du_percent u \<le> 100)
        \<and> distinct (map device (filter (readable ps) (disk_partitions ps))) \<longrightarrow>
        length (get_disk_info fstr ps) = length (filter (readable ps) (disk_partitions ps))
        \<and> map fst (get_disk_info fstr ps)
            = map device_key (filter (readable ps) (disk_partitions ps))
        \<and> (\<forall>part\<in>set (filter (readable ps) (disk_partitions ps)). \<exists>entry u.
              map_of (get_disk_info fstr ps) (device_key part) = Some (VDict entry)
              \<and> disk_usage ps (mountpoint part) = Inr u
              \<and> map_of entry ''Usage'' = Some (VStr (fstr (du_percent u) @ ''%''))
              \<and> 0 \<le> du_percent u \<and> du_percent u \<le> 100)"
    using get_disk_info_readable_entries [of ps fstr] by blast
  show ?thesis using 1 2 3 4 5 6 by (intro conjI)
qed

theorem get_disk_info_entries_witness:
  "length (disk_partitions demo_psutil) = 2
   \<and> length (get_disk_info tenths demo_psutil) = 1
   \<and> map fst (get_disk_info tenths demo_psutil) = [''Device /dev/sda1'']
   \<and> card (device ` {part \<in> set (disk_partitions demo_psutil). retained demo_psutil part}) = 1"
proof -
  have d: "distinct (map device (filter (readable demo_psutil) (disk_partitions demo_psutil)))"
    unfolding demo_disk(2) by simp
  note t = get_disk_info_entries [of tenths demo_psutil]
  from t demo_disk(1) d have
    "length (get_disk_info tenths demo_psutil)
       = length (filter (readable demo_psutil) (disk_partitions demo_psutil))
     \<and> map fst (get_disk_info tenths demo_psutil)
       = map device_key (filter (readable demo_psutil) (disk_partitions demo_psutil))"
    by blast
  then have a: "length (get_disk_info tenths demo_psutil) = 1"
    and b: "map fst (get_disk_info tenths demo_psutil) = [''Device /dev/sda1'']"
    unfolding demo_disk(2) by (simp_all add: device_key_def)
  from t have "length (get_disk_info tenths demo_psutil)
     = card (device ` {part \<in> set (disk_partitions demo_psutil). retained demo_psutil part})"
    by blast
  then have c: "card (device ` {part \<in> set (disk_partitions demo_psutil).
      retained demo_psutil part}) = 1" using a by simp
  have "length (disk_partitions demo_psutil) = 2" by (simp add: demo_psutil_def)
  then show ?thesis using a b c by (intro conjI)
qed

lemma two_mounts_disk:
  "disk_partitions two_mounts_psutil =
     [\<lparr>device = ''/dev/sda1'', mountpoint = ''/'', fstype = ''ext4''\<rparr>,
      \<lparr>device = ''/dev/sda1'', mountpoint = ''/home'', fstype = ''ext4''\<rparr>]"
  "disk_usage two_mounts_psutil path =
     Inr \<lparr>du_total = 1073741824, du_used = 536870912, du_free = 536870912, du_percent = 50\<rparr>"
  by (simp_all add: two_mounts_psutil_def)

text \<open>
  The claim as stated (\<open>M\<close> readable partitions give exactly \<open>M\<close> entries) fails when two
  readable partitions share a device: the entries are keyed by device, and the second
  assignment replaces the first.
\<close>

theorem two_mounts_one_entry:
  "length (filter (readable two_mounts_psutil) (disk_partitions two_mounts_psutil)) = 2
   \<and> length (get_disk_info tenths two_mounts_psutil) = 1"
proof -
  have r: "readable two_mounts_psutil p" for p
    by (simp add: readable_def two_mounts_disk(2))
  have e: "\<not> isl (disk_entry tenths two_mounts_psutil p)" for p
  proof -
    obtain entry where "disk_entry tenths two_mounts_psutil p = Inr entry"
      using disk_entry_readable [OF two_mounts_disk(2), where part = p and fstr = tenths]
      by (auto simp add: byte_count_def)
    then show ?thesis by simp
  qed
  have s: "{p \<in> set (disk_partitions two_mounts_psutil).
      \<not> isl (disk_entry tenths two_mounts_psutil p)} = set (disk_partitions two_mounts_psutil)"
    using e by blast
  have "device_key ` set (disk_partitions two_mounts_psutil) = {''Device /dev/sda1''}"
    unfolding two_mounts_disk(1) by (simp add: device_key_def)
  then have "length (get_disk_info tenths two_mounts_psutil) = 1"
    unfolding get_disk_info_length s by simp
  moreover have "length (filter (readable two_mounts_psutil) (disk_partitions two_mounts_psutil)) = 2"
    by (simp add: r two_mounts_disk(1))
  ultimately show ?thesis by (intro conjI)
qed

section \<open>The GPU inspector\<close>

lemma gpu_key_inj: "gpu_key i = gpu_key j \<Longrightarrow> i = j"
  by (simp add: gpu_key_def show_nat_inj)

lemma gpu_key_not_sentinel: "gpu_key i \<noteq> ''Status''" "gpu_key i \<noteq> ''Error''"
  by (simp_all add: gpu_key_def)

lemma gpu_loop_append:
  assumes "\<forall>i\<in>set (map fst igs). gpu_key i \<notin> set (map fst d)" and "distinct (map fst igs)"
  shows "gpu_loop fstr igs d = d @ map (\<lambda>(i, g). (gpu_key i, VDict (gpu_entry fstr g))) igs"
  using assms
proof (induction igs arbitrary: d)
  case Nil
  then show ?case by simp
next
  case (Cons ig igs)
  obtain i g where ig: "ig = (i, g)" by (cases ig)
  let ?d = "d @ [(gpu_key i, VDict (gpu_entry fstr g))]"
  have fresh: "gpu_key i \<notin> set (map fst d)" using Cons.prems(1) ig by simp
  have "\<forall>j\<in>set (map fst igs). gpu_key j \<notin> set (map fst ?d)"
    using Cons.prems ig by (auto dest: gpu_key_inj)
  moreover have "distinct (map fst igs)" using Cons.prems(2) by simp
  ultimately have "gpu_loop fstr igs ?d =
      ?d @ map (\<lambda>(i, g). (gpu_key i, VDict (gpu_entry fstr g))) igs" by (rule Cons.IH)
  then show ?case using fresh by (simp add: ig update_fresh)
qed

lemma try_get_gpu_info_success:
  assumes "import_GPUtil g = None" and "getGPUs g = Inr gpus"
  shows "try_get_gpu_info fstr g =
    map (\<lambda>(i, g). (gpu_key i, VDict (gpu_entry fstr g))) (enumerate 0 gpus)"
proof -
  have "gpu_loop fstr (enumerate 0 gpus) [] =
      [] @ map (\<lambda>(i, g). (gpu_key i, VDict (gpu_entry fstr g))) (enumerate 0 gpus)"
    by (rule gpu_loop_append) (simp_all only: map_fst_enumerate distinct_upt, simp)
  then show ?thesis using assms by (simp add: try_get_gpu_info_def)
qed

lemma try_get_gpu_info_success_keys:
  assumes "import_GPUtil g = None" and "getGPUs g = Inr gpus"
  shows "map fst (try_get_gpu_info fstr g) = map gpu_key [0..<length gpus]"
proof -
  have "map fst (map (\<lambda>(i, g). (gpu_key i, VDict (gpu_entry fstr g))) igs)
      = map gpu_key (map fst igs)" for igs :: "(nat \<times> gpu) list"
    by (simp add: case_prod_unfold comp_def)
  then have "map fst (try_get_gpu_info fstr g) = map gpu_key (map fst (enumerate 0 gpus))"
    unfolding try_get_gpu_info_success [OF assms] .
  also have "map fst (enumerate 0 gpus) = [0..<length gpus]" by simp
  finally show ?thesis .
qed

lemma sentinel_not_gpu_key:
  "''Status'' \<notin> set (map gpu_key is)" "''Error'' \<notin> set (map gpu_key is)"
  by (induction "is") (simp_all add: gpu_key_not_sentinel [symmetric])

lemma try_get_gpu_info_success_nth:
  assumes "import_GPUtil g = None" and "getGPUs g = Inr gpus" and "i < length gpus"
  shows "try_get_gpu_info fstr g ! i = (gpu_key i, VDict (gpu_entry fstr (gpus ! i)))"
  unfolding try_get_gpu_info_success [OF assms(1,2)] using assms(3)
  by (simp add: nth_enumerate_eq)

lemma float_mul_percent:
  assumes "0 \<le> x" and "x \<le> 1"
  shows "0 \<le> float_mul x 100" and "float_mul x 100 \<le> 100"
proof -
  have p: "0 \<le> x * 100" "x * 100 \<le> 100" using assms by simp_all
  show "0 \<le> float_mul x 100" unfolding float_mul_def using p(1) by (rule rd_nonneg)
  have d: "is_double 100" using is_double_int [of 100] by simp
  show "float_mul x 100 \<le> 100"
  proof (cases "x * 100 = 0")
    case True
    then show ?thesis by (simp add: float_mul_def round_double_def)
  next
    case False
    then have "0 < x * 100" using p(1) by simp
    then show ?thesis unfolding float_mul_def using p(2) d by (rule rd_le_double)
  qed
qed

lemma gpu_entry_load:
  "map_of (gpu_entry fstr gp) ''Load'' = Some (VStr (fstr (float_mul (load gp) 100) @ ''%''))"
  by (simp add: gpu_entry_def)

lemma raised_is_except: "gpu_raised g = Some e \<Longrightarrow> try_get_gpu_info fstr g = gpu_except e"
  by (auto simp add: gpu_raised_def try_get_gpu_info_def split: option.splits sum.splits)

lemma not_raised_success:
  "gpu_raised g = None \<Longrightarrow> \<exists>gpus. import_GPUtil g = None \<and> getGPUs g = Inr gpus"
  by (auto simp add: gpu_raised_def split: option.splits sum.splits)

lemma gpu_except_keys:
  "map fst (gpu_except e) = (if exn_class_of e = ImportError then [''Status''] else [''Error''])"
  by (simp add: gpu_except_def)

text \<open>
  Claim C6, as amended: the GPU inspector has three outcomes, decided by the exception
  that leaves the body of its \<open>try\<close>, the import and the enumeration being guarded
  alike. When either raises \<open>ImportError\<close> the result is the single entry \<open>Status\<close>;
  when either raises any other exception the result is the single entry \<open>Error\<close> with
  the description of the failure; when neither raises and the enumeration returns \<open>G\<close>
  GPUs the result has \<open>G\<close> entries, the \<open>i\<close>-th being the entry of the \<open>i\<close>-th GPU
  under \<open>f"GPU {i}"\<close>, whose \<open>Load\<close> is \<open>load*100\<close> and lies in \<open>[0, 100]\<close> when the
  provider's load lies in \<open>[0, 1]\<close>. The key \<open>Status\<close> is in the result in the first
  outcome only and the key \<open>Error\<close> in the second only.
\<close>

theorem gpu_outcomes:
  "(\<forall>e. gpu_raised g = Some e \<and> exn_class_of e = ImportError \<longrightarrow>
      try_get_gpu_info fstr g =
        [(''Status'',
          VStr ''GPU information unavailable - GPUtil module not installed or supported'')])
   \<and> (\<forall>e. gpu_raised g = Some e \<and> exn_class_of e \<noteq> ImportError \<longrightarrow>
      try_get_gpu_info fstr g =
        [(''Error'', VStr (''Failed to get GPU information: '' @ exn_str e))])
   \<and> (gpu_raised g = None \<longrightarrow>
      (\<exists>gpus. import_GPUtil g = None \<and> getGPUs g = Inr gpus
         \<and> length (try_get_gpu_info fstr g) = length gpus
         \<and> (\<forall>i<length gpus.
               try_get_gpu_info fstr g ! i = (gpu_key i, VDict (gpu_entry fstr (gpus ! i)))
               \<and> map_of (gpu_entry fstr (gpus ! i)) ''Load''
                   = Some (VStr (fstr (float_mul (load (gpus ! i)) 100) @ ''%''))
               \<and> (0 \<le> load (gpus ! i) \<and> load (gpus ! i) \<le> 1 \<longrightarrow>
                    0 \<le> float_mul (load (gpus ! i)) 100
                    \<and> float_mul (load (gpus ! i)) 100 \<le> 100))))
   \<and> (''Status'' \<in> set (map fst (try_get_gpu_info fstr g))
        \<longleftrightarrow> (\<exists>e. gpu_raised g = Some e \<and> exn_class_of e = ImportError))
   \<and> (''Error'' \<in> set (map fst (try_get_gpu_info fstr g))
        \<longleftrightarrow> (\<exists>e. gpu_raised g = Some e \<and> exn_class_of e \<noteq> ImportError))"
proof -
  have 1: "\<forall>e. gpu_raised g = Some e \<and> exn_class_of e = ImportError \<longrightarrow>
      try_get_gpu_info fstr g =
        [(''Status'',
          VStr ''GPU information unavailable - GPUtil module not installed or supported'')]"
    by (auto simp add: raised_is_except gpu_except_def)
  have 2: "\<forall>e. gpu_raised g = Some e \<and> exn_class_of e \<noteq> ImportError \<longrightarrow>
      try_get_gpu_info fstr g =
        [(''Error'', VStr (''Failed to get GPU information: '' @ exn_str e))]"
    by (auto simp add: raised_is_except gpu_except_def)
  have 3: "gpu_raised g = None \<longrightarrow>
      (\<exists>gpus. import_GPUtil g = None \<and> getGPUs g = Inr gpus
         \<and> length (try_get_gpu_info fstr g) = length gpus
         \<and> (\<forall>i<length gpus.
               try_get_gpu_info fstr g ! i = (gpu_key i, VDict (gpu_entry fstr (gpus ! i)))
               \<and> map_of (gpu_entry fstr (gpus ! i)) ''Load''
                   = Some (VStr (fstr (float_mul (load (gpus ! i)) 100) @ ''%''))
               \<and> (0 \<le> load (gpus ! i) \<and> load (gpus ! i) \<le> 1 \<longrightarrow>
                    0 \<le> float_mul (load (gpus ! i)) 100
                    \<and> float_mul (load (gpus ! i)) 100 \<le> 100)))"
  proof
    assume "gpu_raised g = None"
    then obtain gpus where s: "import_GPUtil g = None" "getGPUs g = Inr gpus"
      using not_raised_success by blast
    have l: "length (try_get_gpu_info fstr g) = length gpus"
      unfolding try_get_gpu_info_success [OF s] by simp
    have e: "\<forall>i<length gpus.
               try_get_gpu_info fstr g ! i = (gpu_key i, VDict (gpu_entry fstr (gpus ! i)))
               \<and> map_of (gpu_entry fstr (gpus ! i)) ''Load''
                   = Some (VStr (fstr (float_mul (load (gpus ! i)) 100) @ ''%''))
               \<and> (0 \<le> load (gpus ! i) \<and> load (gpus ! i) \<le> 1 \<longrightarrow>
                    0 \<le> float_mul (load (gpus ! i)) 100
                    \<and> float_mul (load (gpus ! i)) 100 \<le> 100)"
      using try_get_gpu_info_success_nth [OF s, of _ fstr] gpu_entry_load [of fstr]
        float_mul_percent by blast
    show "\<exists>gpus. import_GPUtil g = None \<and> getGPUs g = Inr gpus
         \<and> length (try_get_gpu_info fstr g) = length gpus
         \<and> (\<forall>i<length gpus.
               try_get_gpu_info fstr g ! i = (gpu_key i, VDict (gpu_entry fstr (gpus ! i)))
               \<and> map_of (gpu_entry fstr (gpus ! i)) ''Load''
                   = Some (VStr (fstr (float_mul (load (gpus ! i)) 100) @ ''%''))
               \<and> (0 \<le> load (gpus ! i) \<and> load (gpus ! i) \<le> 1 \<longrightarrow>
                    0 \<le> float_mul (load (gpus ! i)) 100
                    \<and> float_mul (load (gpus ! i)) 100 \<le> 100))"
      using s l e by blast
  qed
  have keys: "''Status'' \<in> set (map fst (try_get_gpu_info fstr g))
        \<longleftrightarrow> (\<exists>e. gpu_raised g = Some e \<and> exn_class_of e = ImportError)"
    "''Error'' \<in> set (map fst (try_get_gpu_info fstr g))
        \<longleftrightarrow> (\<exists>e. gpu_raised g = Some e \<and> exn_class_of e \<noteq> ImportError)"
  proof -
    show "''Status'' \<in> set (map fst (try_get_gpu_info fstr g))
        \<longleftrightarrow> (\<exists>e. gpu_raised g = Some e \<and> exn_class_of e = ImportError)"
    proof (cases "gpu_raised g")
      case None
      then obtain gpus where s: "import_GPUtil g = None" "getGPUs g = Inr gpus"
        using not_raised_success by blast
      have "''Status'' \<notin> set (map fst (try_get_gpu_info fstr g))"
        unfolding try_get_gpu_info_success_keys [OF s] by (rule sentinel_not_gpu_key)
      then show ?thesis using None by simp
    next
      case (Some e)
      have "map fst (try_get_gpu_info fstr g)
          = (if exn_class_of e = ImportError then [''Status''] else [''Error''])"
        unfolding raised_is_except [OF Some] by (rule gpu_except_keys)
      then show ?thesis using Some by simp
    qed
    show "''Error'' \<in> set (map fst (try_get_gpu_info fstr g))
        \<longleftrightarrow> (\<exists>e. gpu_raised g = Some e \<and> exn_class_of e \<noteq> ImportError)"
    proof (cases "gpu_raised g")
      case None
      then obtain gpus where s: "import_GPUtil g = None" "getGPUs g = Inr gpus"
        using not_raised_success by blast
      have "''Error'' \<notin> set (map fst (try_get_gpu_info fstr g))"
        unfolding try_get_gpu_info_success_keys [OF s] by (rule sentinel_not_gpu_key)
      then show ?thesis using None by simp
    next
      case (Some e)
      have "map fst (try_get_gpu_info fstr g)
          = (if exn_class_of e = ImportError then [''Status''] else [''Error''])"
        unfolding raised_is_except [OF Some] by (rule gpu_except_keys)
      then show ?thesis using Some by simp
    qed
  qed
  show ?thesis using 1 2 3 keys by (intro conjI)
qed

lemma demo_gputils:
  "import_GPUtil no_gputil = Some (Exn ImportError ''No module named GPUtil'')"
  "import_GPUtil failing_gputil = None"
  "getGPUs failing_gputil = Inl (Exn OtherException ''nvidia-smi failed'')"
  "import_GPUtil two_gputil = None"
  "getGPUs two_gputil = Inr [demo_gpu, demo_gpu\<lparr>gpu_id := 1, uuid := ''GPU-0001''\<rparr>]"
  by (simp_all add: no_gputil_def failing_gputil_def two_gputil_def)

lemma demo_raised:
  "gpu_raised no_gputil = Some (Exn ImportError ''No module named GPUtil'')"
  "gpu_raised failing_gputil = Some (Exn OtherException ''nvidia-smi failed'')"
  "gpu_raised two_gputil = None"
  "gpu_raised enum_import_error_gputil = Some (Exn ImportError ''No module named pynvml'')"
  by (simp_all add: gpu_raised_def no_gputil_def failing_gputil_def two_gputil_def
      enum_import_error_gputil_def)

theorem gpu_outcomes_witness:
  "try_get_gpu_info tenths no_gputil =
     [(''Status'', VStr ''GPU information unavailable - GPUtil module not installed or supported'')]
   \<and> try_get_gpu_info tenths failing_gputil =
     [(''Error'', VStr ''Failed to get GPU information: nvidia-smi failed'')]
   \<and> length (try_get_gpu_info tenths two_gputil) = 2
   \<and> float_mul (load demo_gpu) 100 \<le> 100"
proof -
  note a = gpu_outcomes [of no_gputil tenths]
  note b = gpu_outcomes [of failing_gputil tenths]
  note c = gpu_outcomes [of two_gputil tenths]
  have 1: "try_get_gpu_info tenths no_gputil =
     [(''Status'', VStr ''GPU information unavailable - GPUtil module not installed or supported'')]"
    using a demo_raised(1) by simp
  have 2: "try_get_gpu_info tenths failing_gputil =
     [(''Error'', VStr ''Failed to get GPU information: nvidia-smi failed'')]"
    using b demo_raised(2) by simp
  from c demo_raised(3) obtain gpus where g: "getGPUs two_gputil = Inr gpus"
    "length (try_get_gpu_info tenths two_gputil) = length gpus"
    "\<forall>i<length gpus. 0 \<le> load (gpus ! i) \<and> load (gpus ! i) \<le> 1 \<longrightarrow>
        float_mul (load (gpus ! i)) 100 \<le> 100" by blast
  from g(1) have gp: "gpus = [demo_gpu, demo_gpu\<lparr>gpu_id := 1, uuid := ''GPU-0001''\<rparr>]"
    by (simp add: two_gputil_def)
  have 3: "length (try_get_gpu_info tenths two_gputil) = 2" using g(2) gp by simp
  have "0 \<le> load (gpus ! 0) \<and> load (gpus ! 0) \<le> 1" "0 < length gpus"
    by (simp_all add: gp demo_gpu_def)
  then have "float_mul (load (gpus ! 0)) 100 \<le> 100" using g(3) by blast
  then have 4: "float_mul (load demo_gpu) 100 \<le> 100" by (simp add: gp)
  show ?thesis using 1 2 3 4 by (intro conjI)
qed

text \<open>
  The claim as stated (an enumeration that raises gives the \<open>Error\<close> entry with the
  description of the failure, distinguishable from the other outcomes) fails when the
  enumeration raises \<open>ImportError\<close>: the result is the \<open>Status\<close> entry of a host without
  GPUtil.
\<close>

theorem enumeration_import_error:
  "import_GPUtil enum_import_error_gputil = None
   \<and> getGPUs enum_import_error_gputil = Inl (Exn ImportError ''No module named pynvml'')
   \<and> try_get_gpu_info tenths enum_import_error_gputil = try_get_gpu_info tenths no_gputil
   \<and> try_get_gpu_info tenths enum_import_error_gputil \<noteq>
       [(''Error'', VStr (''Failed to get GPU information: ''
                           @ exn_str (Exn ImportError ''No module named pynvml'')))]"
  by (simp add: enum_import_error_gputil_def no_gputil_def try_get_gpu_info_def gpu_except_def)

lemma gpu_except_sentinel:
  "is_sentinel (gpu_except e)"
  "\<exists>msg. (gpu_except e = [(''Status'', VStr msg)] \<or> gpu_except e = [(''Error'', VStr msg)])
     \<and> print_gpu (gpu_except e) = ([Print (VStr msg)], None)"
  by (simp_all add: is_sentinel_def gpu_except_def print_gpu_def)

lemma success_not_sentinel:
  assumes "import_GPUtil g = None" and "getGPUs g = Inr gpus"
  shows "\<not> is_sentinel (try_get_gpu_info fstr g)"
proof -
  have "''Status'' \<notin> set (map fst (try_get_gpu_info fstr g))"
    "''Error'' \<notin> set (map fst (try_get_gpu_info fstr g))"
    unfolding try_get_gpu_info_success_keys [OF assms] by (rule sentinel_not_gpu_key)+
  then show ?thesis unfolding is_sentinel_def by blast
qed

lemma failure_is_except:
  assumes "\<not> (import_GPUtil g = None \<and> \<not> isl (getGPUs g))"
  obtains e where "try_get_gpu_info fstr g = gpu_except e"
  using assms
  by (cases "import_GPUtil g"; cases "getGPUs g") (auto simp add: try_get_gpu_info_def)

text \<open>
  Claim C10: the keys of a successful result are \<open>f"GPU {i}"\<close> for \<open>i = 0, ..., G-1\<close>, so
  the renderer's sentinel check is false on it and the per-device loop prints it; on
  every other result of \<open>try_get_gpu_info\<close> the check is true, the result is the single
  \<open>Status\<close> or \<open>Error\<close> entry, and the renderer prints its message.
\<close>

theorem sentinel_classifies:
  "(import_GPUtil g = None \<and> \<not> isl (getGPUs g) \<longrightarrow>
      map fst (try_get_gpu_info fstr g) = map gpu_key [0..<length (projr (getGPUs g))]
      \<and> \<not> is_sentinel (try_get_gpu_info fstr g)
      \<and> print_gpu (try_get_gpu_info fstr g) = print_devices (try_get_gpu_info fstr g))
   \<and> (\<not> (import_GPUtil g = None \<and> \<not> isl (getGPUs g)) \<longrightarrow>
      is_sentinel (try_get_gpu_info fstr g)
      \<and> (\<exists>msg. (try_get_gpu_info fstr g = [(''Status'', VStr msg)]
                  \<or> try_get_gpu_info fstr g = [(''Error'', VStr msg)])
            \<and> print_gpu (try_get_gpu_info fstr g) = ([Print (VStr msg)], None)))"
proof (intro conjI impI)
  assume a: "import_GPUtil g = None \<and> \<not> isl (getGPUs g)"
  then obtain gpus where s: "import_GPUtil g = None" "getGPUs g = Inr gpus"
    by (cases "getGPUs g") simp_all
  show "map fst (try_get_gpu_info fstr g) = map gpu_key [0..<length (projr (getGPUs g))]"
    using try_get_gpu_info_success_keys [OF s] s(2) by simp
  show n: "\<not> is_sentinel (try_get_gpu_info fstr g)" using s by (rule success_not_sentinel)
  show "print_gpu (try_get_gpu_info fstr g) = print_devices (try_get_gpu_info fstr g)"
    using n by (simp add: print_gpu_def)
next
  assume a: "\<not> (import_GPUtil g = None \<and> \<not> isl (getGPUs g))"
  then obtain e where e: "try_get_gpu_info fstr g = gpu_except e"
    by (rule failure_is_except)
  show "is_sentinel (try_get_gpu_info fstr g)" unfolding e by (rule gpu_except_sentinel)
  show "\<exists>msg. (try_get_gpu_info fstr g = [(''Status'', VStr msg)]
                  \<or> try_get_gpu_info fstr g = [(''Error'', VStr msg)])
            \<and> print_gpu (try_get_gpu_info fstr g) = ([Print (VStr msg)], None)"
    unfolding e by (rule gpu_except_sentinel)
qed

theorem sentinel_classifies_witness:
  "map fst (try_get_gpu_info tenths two_gputil) = [gpu_key 0, gpu_key 1]
   \<and> \<not> is_sentinel (try_get_gpu_info tenths two_gputil)
   \<and> is_sentinel (try_get_gpu_info tenths no_gputil)
   \<and> is_sentinel (try_get_gpu_info tenths failing_gputil)"
proof -
  have 1: "import_GPUtil two_gputil = None \<and> \<not> isl (getGPUs two_gputil)"
    by (simp add: demo_gputils)
  have 2: "\<not> (import_GPUtil no_gputil = None \<and> \<not> isl (getGPUs no_gputil))"
    by (simp add: demo_gputils)
  have 3: "\<not> (import_GPUtil failing_gputil = None \<and> \<not> isl (getGPUs failing_gputil))"
    by (simp add: demo_gputils)
  have l: "[0..<length (projr (getGPUs two_gputil))] = [0, 1]"
    by (simp add: demo_gputils upt_rec)
  have "map fst (try_get_gpu_info tenths two_gputil) = [gpu_key 0, gpu_key 1]"
    using sentinel_classifies [of two_gputil tenths] 1 unfolding l by simp
  moreover have "\<not> is_sentinel (try_get_gpu_info tenths two_gputil)"
    using sentinel_classifies [of two_gputil tenths] 1 by blast
  moreover have "is_sentinel (try_get_gpu_info tenths no_gputil)"
    using sentinel_classifies [of no_gputil tenths] 2 by blast
  moreover have "is_sentinel (try_get_gpu_info tenths failing_gputil)"
    using sentinel_classifies [of failing_gputil tenths] 3 by blast
  ultimately show ?thesis by (intro conjI)
qed

section \<open>The report renderer\<close>

lemma update_values:
  "set (map snd (AList.update k v d)) \<subseteq> insert v (set (map snd d))"
  by (induction d) auto

lemma all_dicts_update: "all_dicts d \<Longrightarrow> all_dicts (AList.update k (VDict e) d)"
  unfolding all_dicts_def using update_values [of k "VDict e" d] by blast

lemma all_dicts_disk_loop: "all_dicts d \<Longrightarrow> all_dicts (disk_loop fstr ps parts d)"
proof (induction parts arbitrary: d)
  case Nil
  then show ?case by simp
next
  case (Cons p parts)
  then show ?case by (cases "disk_entry fstr ps p") (simp_all add: all_dicts_update)
qed

lemma all_dicts_disk: "all_dicts (get_disk_info fstr ps)"
  unfolding get_disk_info_def by (rule all_dicts_disk_loop) (simp add: all_dicts_def)

lemma all_dicts_gpu_loop: "all_dicts d \<Longrightarrow> all_dicts (gpu_loop fstr igs d)"
proof (induction igs arbitrary: d)
  case Nil
  then show ?case by simp
next
  case (Cons ig igs)
  obtain i g where "ig = (i, g)" by (cases ig)
  then show ?case using Cons by (simp add: all_dicts_update)
qed

lemma print_devices_dicts: "all_dicts d \<Longrightarrow> print_devices d = (device_tables d, None)"
proof (induction d)
  case Nil
  then show ?case by (simp add: device_tables_def)
next
  case (Cons kv d)
  obtain k v where kv: "kv = (k, v)" by (cases kv)
  obtain e where v: "v = VDict e" using Cons.prems kv by (auto simp add: all_dicts_def)
  have "all_dicts d" using Cons.prems by (simp add: all_dicts_def)
  then have "print_devices d = (device_tables d, None)" by (rule Cons.IH)
  then show ?case by (simp add: kv v device_tables_def)
qed

lemma print_gpu_eq:
  "print_gpu (try_get_gpu_info fstr g) =
     ((if is_sentinel (try_get_gpu_info fstr g)
       then [Print (snd (hd (try_get_gpu_info fstr g)))]
       else device_tables (try_get_gpu_info fstr g)), None)"
proof (cases "import_GPUtil g = None \<and> \<not> isl (getGPUs g)")
  case True
  then obtain gpus where s: "import_GPUtil g = None" "getGPUs g = Inr gpus"
    by (cases "getGPUs g") simp_all
  have n: "\<not> is_sentinel (try_get_gpu_info fstr g)" using s by (rule success_not_sentinel)
  have "all_dicts (gpu_loop fstr (enumerate 0 gpus) [])"
    by (rule all_dicts_gpu_loop) (simp add: all_dicts_def)
  then have "all_dicts (try_get_gpu_info fstr g)" using s by (simp add: try_get_gpu_info_def)
  then have "print_devices (try_get_gpu_info fstr g) = (device_tables (try_get_gpu_info fstr g), None)"
    by (rule print_devices_dicts)
  then show ?thesis using n by (simp add: print_gpu_def)
next
  case False
  then obtain e where e: "try_get_gpu_info fstr g = gpu_except e"
    by (rule failure_is_except)
  have a: "is_sentinel (try_get_gpu_info fstr g)"
    and "\<exists>msg. (try_get_gpu_info fstr g = [(''Status'', VStr msg)]
                  \<or> try_get_gpu_info fstr g = [(''Error'', VStr msg)])
            \<and> print_gpu (try_get_gpu_info fstr g) = ([Print (VStr msg)], None)"
    unfolding e by (rule gpu_except_sentinel)+
  then obtain msg where m: "try_get_gpu_info fstr g = [(''Status'', VStr msg)]
                  \<or> try_get_gpu_info fstr g = [(''Error'', VStr msg)]"
    and p: "print_gpu (try_get_gpu_info fstr g) = ([Print (VStr msg)], None)" by blast
  from m have "snd (hd (try_get_gpu_info fstr g)) = VStr msg" by auto
  then show ?thesis using a p by simp
qed

lemma main_raises:
  assumes "get_memory_info fstr ps = Inl e"
  shows "main fstr now pl ps g = (report_head now, Some e)"
  using assms by (simp add: main_def report_head_def)

lemma main_returns:
  assumes "get_memory_info fstr ps = Inr memory_info"
  shows "main fstr now pl ps g =
          (report_head now
             @ flat_sections (get_system_info pl) (get_cpu_info fstr ps) memory_info
             @ [Print (VStr (nl @ ''--- Disk Information ---''))]
             @ device_tables (get_disk_info fstr ps)
             @ [Print (VStr (nl @ ''--- GPU Information ---''))]
             @ (if is_sentinel (try_get_gpu_info fstr g)
                then [Print (snd (hd (try_get_gpu_info fstr g)))]
                else device_tables (try_get_gpu_info fstr g)),
           None)"
proof -
  have d: "print_devices (get_disk_info fstr ps) = (device_tables (get_disk_info fstr ps), None)"
    using all_dicts_disk by (rule print_devices_dicts)
  show ?thesis
    unfolding main_def Let_def assms d print_gpu_eq report_head_def flat_sections_def by simp
qed

text \<open>
  Claim C9, as amended: every run prints the title and the generation timestamp
  first. A run whose memory inspector raises ends there with that exception. Every
  other run then prints the sections System, CPU and Memory in this order, each as
  one two-column (Property, Value) table under its header, then the Disk header and one
  sub-table per entry of the disk grouping, each under the entry's key, then the GPU
  header and, when the GPU result is not the \<open>Status\<close> or \<open>Error\<close> sentinel, one
  sub-table per GPU in the same way; on a sentinel the GPU section is the one line of
  its message, without a table. Such a run ends without an exception.
\<close>

theorem main_report:
  "(\<forall>e. get_memory_info fstr ps = Inl e \<longrightarrow> main fstr now pl ps g = (report_head now, Some e))
   \<and> (\<forall>memory_info. get_memory_info fstr ps = Inr memory_info \<longrightarrow>
        main fstr now pl ps g =
          (report_head now
             @ flat_sections (get_system_info pl) (get_cpu_info fstr ps) memory_info
             @ [Print (VStr (nl @ ''--- Disk Information ---''))]
             @ device_tables (get_disk_info fstr ps)
             @ [Print (VStr (nl @ ''--- GPU Information ---''))]
             @ (if is_sentinel (try_get_gpu_info fstr g)
                then [Print (snd (hd (try_get_gpu_info fstr g)))]
                else device_tables (try_get_gpu_info fstr g)),
           None))"
proof (intro conjI allI impI)
  fix e
  assume "get_memory_info fstr ps = Inl e"
  then show "main fstr now pl ps g = (report_head now, Some e)" by (rule main_raises)
next
  fix memory_info
  assume "get_memory_info fstr ps = Inr memory_info"
  then show "main fstr now pl ps g =
          (report_head now
             @ flat_sections (get_system_info pl) (get_cpu_info fstr ps) memory_info
             @ [Print (VStr (nl @ ''--- Disk Information ---''))]
             @ device_tables (get_disk_info fstr ps)
             @ [Print (VStr (nl @ ''--- GPU Information ---''))]
             @ (if is_sentinel (try_get_gpu_info fstr g)
                then [Print (snd (hd (try_get_gpu_info fstr g)))]
                else device_tables (try_get_gpu_info fstr g)),
           None)" by (rule main_returns)
qed

lemma demo_memory: "\<exists>memory_info. get_memory_info tenths demo_psutil = Inr memory_info"
  by (rule get_memory_info_returns) (simp_all add: demo_psutil_def)

theorem main_report_witness:
  "\<exists>memory_info. get_memory_info tenths demo_psutil = Inr memory_info
     \<and> main tenths demo_now demo_platform demo_psutil two_gputil =
         (report_as_claimed demo_now (get_system_info demo_platform)
            (get_cpu_info tenths demo_psutil) memory_info (get_disk_info tenths demo_psutil)
            (try_get_gpu_info tenths two_gputil), None)"
proof -
  obtain memory_info where m: "get_memory_info tenths demo_psutil = Inr memory_info"
    using demo_memory by blast
  have n: "\<not> is_sentinel (try_get_gpu_info tenths two_gputil)"
    by (rule success_not_sentinel) (simp_all add: demo_gputils)
  have "main tenths demo_now demo_platform demo_psutil two_gputil =
         (report_as_claimed demo_now (get_system_info demo_platform)
            (get_cpu_info tenths demo_psutil) memory_info (get_disk_info tenths demo_psutil)
            (try_get_gpu_info tenths two_gputil), None)"
    using main_report [of tenths demo_psutil demo_now demo_platform two_gputil] m n
    by (simp add: report_as_claimed_def)
  then show ?thesis using m by blast
qed

text \<open>
  The claim as stated (every run renders the GPU section as one sub-table per entry of
  its grouping, under the entry's key) fails on a host without GPUtil: the run prints the
  message of the \<open>Status\<close> entry and no table.
\<close>

theorem no_gpu_report_differs:
  "snd (main tenths demo_now demo_platform demo_psutil no_gputil) = None
   \<and> fst (main tenths demo_now demo_platform demo_psutil no_gputil) \<noteq>
       report_as_claimed demo_now (get_system_info demo_platform)
         (get_cpu_info tenths demo_psutil) (projr (get_memory_info tenths demo_psutil))
         (get_disk_info tenths demo_psutil) (try_get_gpu_info tenths no_gputil)"
proof -
  obtain memory_info where m: "get_memory_info tenths demo_psutil = Inr memory_info"
    using demo_memory by blast
  have g: "try_get_gpu_info tenths no_gputil =
      [(''Status'', VStr ''GPU information unavailable - GPUtil module not installed or supported'')]"
    by (simp add: try_get_gpu_info_def gpu_except_def demo_gputils)
  have s: "is_sentinel (try_get_gpu_info tenths no_gputil)"
    unfolding g by (simp add: is_sentinel_def)
  have "main tenths demo_now demo_platform demo_psutil no_gputil =
          (report_head demo_now
             @ flat_sections (get_system_info demo_platform) (get_cpu_info tenths demo_psutil)
                 memory_info
             @ [Print (VStr (nl @ ''--- Disk Information ---''))]
             @ device_tables (get_disk_info tenths demo_psutil)
             @ [Print (VStr (nl @ ''--- GPU Information ---''))]
             @ [Print (snd (hd (try_get_gpu_info tenths no_gputil)))],
           None)"
    using main_returns [OF m, of demo_now demo_platform no_gputil] s by simp
  then show ?thesis unfolding report_as_claimed_def m g
    by (simp add: device_tables_def)
qed

end
